theory Spec2Isabelle
  imports Complex_Main "HOL-Library.Multiset" "HOL-Library.Char_ord" "HOL-Library.List_Lexorder"
begin

section \<open>Python values, exceptions and the random module\<close>

text \<open>
  The exceptions the modelled code can raise. A Python call that raises is the value
  \<open>Inl e\<close>; a call that returns is \<open>Inr v\<close>. Where a loop may run forever the result is
  wrapped in \<open>option\<close> and \<open>None\<close> is the call that never returns.
\<close>

datatype error = IndexError | ValueError | TypeError | KeyError | AttributeError | RuntimeError

text \<open>
  A verdict slot of a result dictionary holds either a value produced by the vault's
  evaluator or a Python string literal (\<open>"UNRESOLVED"\<close>, the oracle's response text).
\<close>

datatype 'v pyval = Val 'v | Str string

text \<open>
  The random module is global state. It is modelled as an infinite sequence of raw
  values (\<open>rng\<close>) together with the position of the next unread value, which the
  functions below thread explicitly. \<open>_randbelow(n)\<close> applied to the raw value \<open>r\<close>
  is \<open>r mod n\<close>, so every sequence is a possible behaviour of the module and every
  outcome of the module is reached by some sequence.
\<close>

type_synonym rng = "nat \<Rightarrow> nat"

text \<open>\<open>random.choice(seq)\<close>: IndexError on an empty sequence, else one of its elements.\<close>

definition random_choice :: "'a list \<Rightarrow> nat \<Rightarrow> error + 'a" where
  "random_choice seq r =
     (if seq = [] then Inl IndexError else Inr (seq ! (r mod length seq)))"

text \<open>
  \<open>random.sample(population, k)\<close>: ValueError when \<open>k\<close> exceeds the population, else
  \<open>k\<close> elements taken from pairwise different positions (sampling without
  replacement): each raw value selects one of the positions still in the pool.
\<close>

fun sample_positions :: "'a list \<Rightarrow> nat list \<Rightarrow> 'a list" where
  "sample_positions pool [] = []"
| "sample_positions pool (r # rs) =
     (let j = r mod length pool
      in pool ! j # sample_positions (take j pool @ drop (Suc j) pool) rs)"

definition random_sample :: "'a list \<Rightarrow> nat \<Rightarrow> nat list \<Rightarrow> error + 'a list" where
  "random_sample population k rs =
     (if length population < k then Inl ValueError
      else Inr (sample_positions population (take k rs)))"

text \<open>
  \<open>random.shuffle(x)\<close>: the in-place Fisher-Yates pass
  \<^verbatim>\<open>for i in reversed(range(1, len(x))): j = randbelow(i + 1); x[i], x[j] = x[j], x[i]\<close>.
  The first argument is the list of indices \<open>i\<close> still to visit, in visiting order.
\<close>

fun shuffle_pass :: "nat list \<Rightarrow> rng \<Rightarrow> nat \<Rightarrow> 'a list \<Rightarrow> 'a list" where
  "shuffle_pass [] rng pos x = x"
| "shuffle_pass (i # is) rng pos x =
     (let j = rng pos mod (i + 1)
      in shuffle_pass is rng (pos + 1) (x[i := x ! j, j := x ! i]))"

definition random_shuffle :: "rng \<Rightarrow> nat \<Rightarrow> 'a list \<Rightarrow> 'a list" where
  "random_shuffle rng pos x = shuffle_pass (rev [1 ..< length x]) rng pos x"

text \<open>\<open>random.uniform(a, b)\<close> is \<open>a + (b - a) * random()\<close> with \<open>random()\<close> the unit draw \<open>u\<close>.\<close>

definition random_uniform :: "real \<Rightarrow> real \<Rightarrow> real \<Rightarrow> real" where
  "random_uniform a b u = a + (b - a) * u"

section \<open>The vault collaborator and the state of a harmonizer run\<close>

text \<open>
  The vault is duck-typed: two sequences and two methods. \<open>evaluate\<close> may keep state of
  its own (type \<open>'e\<close>), which is passed in and returned; \<open>is_resolved\<close> reads a verdict.
\<close>

record ('p, 's, 'd, 'v, 'e) vault =
  philosophers :: "'p list"
  logic_seeds :: "'s list"
  evaluate :: "'e \<Rightarrow> 'd \<Rightarrow> 'p \<Rightarrow> 's list \<Rightarrow> 'v \<times> 'e"
  is_resolved :: "'v \<Rightarrow> bool"

text \<open>
  Everything a harmonizer mutates while it runs: its own \<open>previous_sets\<close> list, the
  position in the random sequence and the evaluator's state. \<open>evaluated\<close> is a log of
  the (philosopher, logic set) arguments of the calls to \<open>vault.evaluate\<close>, in call
  order; the program does not read it.
\<close>

record ('p, 's, 'e) hstate =
  previous_sets :: "('p \<times> 's list) list"
  rng_pos :: nat
  vault_state :: 'e
  evaluated :: "('p \<times> 's list) list"

text \<open>The result dictionary; a key that a return statement leaves out is \<open>None\<close>.\<close>

record 'v result =
  source :: string
  verdict :: "'v pyval"
  cycles :: "nat option"
  status :: string
  ollama_model :: "string option"

definition base_cycles :: nat where
  "base_cycles = 5"

definition conflict_cycles :: nat where
  "conflict_cycles = 5"

section \<open>Seed selection\<close>

text \<open>
  \<open>_pick_unique_seedset\<close> (the same text in HarmonizerLeft, HarmonizerRight and
  FinalHarmonizer): \<open>while True\<close>, draw a philosopher and five logic seeds, sort the
  seeds, return the combo and append it to \<open>previous_sets\<close> if it is not yet there,
  otherwise draw again. Each pass reads six raw values. The result carries the combo,
  the new position in the random sequence and the new \<open>previous_sets\<close>.
\<close>

partial_function (option) pick_unique_seedset ::
  "'p list \<Rightarrow> ('s::linorder) list \<Rightarrow> rng \<Rightarrow> nat \<Rightarrow> ('p \<times> 's list) list
     \<Rightarrow> (error + (('p \<times> 's list) \<times> nat \<times> ('p \<times> 's list) list)) option" where
  "pick_unique_seedset phils seeds rng pos prev =
     (case random_choice phils (rng pos) of
        Inl e \<Rightarrow> Some (Inl e)
      | Inr philosopher \<Rightarrow>
          (case random_sample seeds 5 (map rng [pos + 1 ..< pos + 6]) of
             Inl e \<Rightarrow> Some (Inl e)
           | Inr smp \<Rightarrow>
               (let combo = (philosopher, sort smp)
                in if combo \<notin> set prev
                   then Some (Inr (combo, pos + 6, prev @ [combo]))
                   else pick_unique_seedset phils seeds rng (pos + 6) prev)))"

declare pick_unique_seedset.simps [code]

section \<open>The hemisphere harmonizers\<close>

text \<open>
  The first two statements of every cycle body:
  \<^verbatim>\<open>philosopher, logic_set = self._pick_unique_seedset()\<close> and
  \<^verbatim>\<open>verdict = self.vault.evaluate(distilled, philosopher, logic_set)\<close>.
  The result is the combo, the verdict and the state after the two statements.
\<close>

definition attempt ::
  "('p, 's::linorder, 'd, 'v, 'e) vault \<Rightarrow> rng \<Rightarrow> 'd \<Rightarrow> ('p, 's, 'e) hstate
     \<Rightarrow> (error + (('p \<times> 's list) \<times> 'v \<times> ('p, 's, 'e) hstate)) option" where
  "attempt vault rng distilled st =
     (case pick_unique_seedset (philosophers vault) (logic_seeds vault) rng
             (rng_pos st) (previous_sets st) of
        None \<Rightarrow> None
      | Some (Inl e) \<Rightarrow> Some (Inl e)
      | Some (Inr ((philosopher, logic_set), pos', prev')) \<Rightarrow>
          (case evaluate vault (vault_state st) distilled philosopher logic_set of
             (v, e') \<Rightarrow>
               Some (Inr ((philosopher, logic_set), v,
                          \<lparr>previous_sets = prev', rng_pos = pos', vault_state = e',
                            evaluated = evaluated st @ [(philosopher, logic_set)]\<rparr>))))"

text \<open>
  One \<open>for\<close> loop of \<open>harmonize\<close> over the remaining values of its loop variable. The
  primary loop reports \<open>cycle\<close> under the key \<open>cycles\<close>, the conflict loop reports
  \<open>self.base_cycles + conflict\<close>; \<open>reported\<close> is that expression. The loop yields
  \<open>Some result\<close> when a cycle returned and \<open>None\<close> when the range ran out.
\<close>

fun cycles_loop ::
  "string \<Rightarrow> ('p, 's::linorder, 'd, 'v, 'e) vault \<Rightarrow> rng \<Rightarrow> 'd \<Rightarrow> (nat \<Rightarrow> nat) \<Rightarrow> nat list
     \<Rightarrow> ('p, 's, 'e) hstate \<Rightarrow> (error + ('v result option \<times> ('p, 's, 'e) hstate)) option" where
  "cycles_loop src vault rng distilled reported [] st = Some (Inr (None, st))"
| "cycles_loop src vault rng distilled reported (cycle # rest) st =
     (case attempt vault rng distilled st of
        None \<Rightarrow> None
      | Some (Inl e) \<Rightarrow> Some (Inl e)
      | Some (Inr (combo, v, st')) \<Rightarrow>
          if is_resolved vault v
          then Some (Inr (Some \<lparr>source = src, verdict = Val v, cycles = Some (reported cycle),
                                  status = ''resolved'', ollama_model = None\<rparr>, st'))
          else cycles_loop src vault rng distilled reported rest st')"

text \<open>
  \<open>harmonize\<close> of a hemisphere: the primary cycles, then the conflict cycles, then the
  unresolved result. HarmonizerLeft and HarmonizerRight differ in the \<open>source\<close> string
  only.
\<close>

definition hemisphere_harmonize ::
  "string \<Rightarrow> ('p, 's::linorder, 'd, 'v, 'e) vault \<Rightarrow> rng \<Rightarrow> 'd \<Rightarrow> ('p, 's, 'e) hstate
     \<Rightarrow> (error + ('v result \<times> ('p, 's, 'e) hstate)) option" where
  "hemisphere_harmonize src vault rng distilled st =
     (case cycles_loop src vault rng distilled (\<lambda>cycle. cycle) [1 ..< base_cycles + 1] st of
        None \<Rightarrow> None
      | Some (Inl e) \<Rightarrow> Some (Inl e)
      | Some (Inr (Some r, st')) \<Rightarrow> Some (Inr (r, st'))
      | Some (Inr (None, st')) \<Rightarrow>
          (case cycles_loop src vault rng distilled (\<lambda>conflict. base_cycles + conflict)
                  [1 ..< conflict_cycles + 1] st' of
             None \<Rightarrow> None
           | Some (Inl e) \<Rightarrow> Some (Inl e)
           | Some (Inr (Some r, st'')) \<Rightarrow> Some (Inr (r, st''))
           | Some (Inr (None, st'')) \<Rightarrow>
               Some (Inr (\<lparr>source = src, verdict = Str ''UNRESOLVED'',
                           cycles = Some (base_cycles + conflict_cycles),
                           status = ''unresolved'', ollama_model = None\<rparr>, st''))))"

definition HarmonizerLeft_harmonize ::
  "('p, 's::linorder, 'd, 'v, 'e) vault \<Rightarrow> rng \<Rightarrow> 'd \<Rightarrow> ('p, 's, 'e) hstate
     \<Rightarrow> (error + ('v result \<times> ('p, 's, 'e) hstate)) option" where
  "HarmonizerLeft_harmonize = hemisphere_harmonize ''Left_Hemisphere''"

definition HarmonizerRight_harmonize ::
  "('p, 's::linorder, 'd, 'v, 'e) vault \<Rightarrow> rng \<Rightarrow> 'd \<Rightarrow> ('p, 's, 'e) hstate
     \<Rightarrow> (error + ('v result \<times> ('p, 's, 'e) hstate)) option" where
  "HarmonizerRight_harmonize = hemisphere_harmonize ''Right_Hemisphere''"

text \<open>
  The first \<open>n\<close> cycle bodies carried out one after the other whatever their verdicts
  are; the result lists the verdicts in order. This is not a function of the program:
  it names "attempt k of a run" so that statements about \<open>harmonize\<close> can refer to it.
\<close>

fun attempts ::
  "('p, 's::linorder, 'd, 'v, 'e) vault \<Rightarrow> rng \<Rightarrow> 'd \<Rightarrow> nat \<Rightarrow> ('p, 's, 'e) hstate
     \<Rightarrow> (error + ('v list \<times> ('p, 's, 'e) hstate)) option" where
  "attempts vault rng distilled 0 st = Some (Inr ([], st))"
| "attempts vault rng distilled (Suc n) st =
     (case attempt vault rng distilled st of
        None \<Rightarrow> None
      | Some (Inl e) \<Rightarrow> Some (Inl e)
      | Some (Inr (combo, v, st')) \<Rightarrow>
          (case attempts vault rng distilled n st' of
             None \<Rightarrow> None
           | Some (Inl e) \<Rightarrow> Some (Inl e)
           | Some (Inr (vs, st'')) \<Rightarrow> Some (Inr (v # vs, st''))))"


section \<open>ISSBrainstem: pulses and stardates\<close>

text \<open>
  An ISSBrainstem instance holds \<open>_cycle\<close> and \<open>_last_ts\<close>. Every reading of
  \<open>time.time()\<close> is an argument of the operation that takes it. A pulse is the string
  \<open>PULSE-<unix>.<cycle>\<close>; the model keeps its two components.
\<close>

record iss =
  cycle :: nat
  last_ts :: real

record pulse_id =
  pulse_unix :: real
  pulse_cycle :: nat

definition ISSBrainstem_init :: "real \<Rightarrow> iss" where
  "ISSBrainstem_init now = \<lparr>cycle = 0, last_ts = now\<rparr>"

definition pulse :: "iss \<Rightarrow> real \<Rightarrow> pulse_id \<times> iss" where
  "pulse self now =
     (let c = cycle self + 1
      in (\<lparr>pulse_unix = now, pulse_cycle = c\<rparr>, self\<lparr>cycle := c\<rparr>))"

text \<open>
  \<open>stardate\<close>: year and day of year of \<open>time.gmtime(now)\<close> (the calendar is the
  parameter \<open>gmtime\<close>) and the hundredths of seconds since midnight,
  \<open>int((now % 86400) * 100)\<close>.
\<close>

definition stardate :: "(real \<Rightarrow> int \<times> int) \<Rightarrow> real \<Rightarrow> int \<times> int \<times> int" where
  "stardate gmtime now =
     (case gmtime now of
        (year, day_of_year) \<Rightarrow>
          (year, day_of_year, \<lfloor>(now - 86400 * of_int \<lfloor>now / 86400\<rfloor>) * 100\<rfloor>))"

definition detect_drift :: "iss \<Rightarrow> real \<Rightarrow> real \<Rightarrow> bool \<times> iss" where
  "detect_drift self threshold_seconds now =
     (let delta = \<bar>now - last_ts self\<bar>
      in (delta > threshold_seconds, self\<lparr>last_ts := now\<rparr>))"

text \<open>
  The pulses of a sequence of calls to \<open>pulse\<close> on one instance, one call per clock
  reading in the list. It names "N invocations of pulse()"; it is not in the program.
\<close>

fun pulses :: "iss \<Rightarrow> real list \<Rightarrow> pulse_id list \<times> iss" where
  "pulses self [] = ([], self)"
| "pulses self (now # nows) =
     (case pulse self now of
        (p, self') \<Rightarrow> (case pulses self' nows of (ps, self'') \<Rightarrow> (p # ps, self'')))"

section \<open>Thinker\<close>

text \<open>
  \<open>Thinker.__init__\<close> builds an ISSBrainstem of its own. \<open>reflect\<close> reads the clock
  twice, once inside \<open>pulse\<close> and once inside \<open>stardate\<close>.
\<close>

record thinker =
  thinker_iss :: iss

record reflect_clock =
  pulse_time :: real
  stardate_time :: real
  gmtime :: "real \<Rightarrow> int \<times> int"

record 'r reflection =
  original :: 'r
  reflection_note :: string
  confidence :: real
  pulse_stamp :: pulse_id
  stardate_stamp :: "int \<times> int \<times> int"

definition Thinker_init :: "real \<Rightarrow> thinker" where
  "Thinker_init now = \<lparr>thinker_iss = ISSBrainstem_init now\<rparr>"

definition Thinker_reflect :: "thinker \<Rightarrow> reflect_clock \<Rightarrow> 'r \<Rightarrow> 'r reflection \<times> thinker" where
  "Thinker_reflect self clk merged_verdict =
     (case pulse (thinker_iss self) (pulse_time clk) of
        (p, iss') \<Rightarrow>
          (\<lparr>original = merged_verdict, reflection_note = ''Meta-analysis applied'',
            confidence = 95 / 100, pulse_stamp = p,
            stardate_stamp = stardate (gmtime clk) (stardate_time clk)\<rparr>,
           self\<lparr>thinker_iss := iss'\<rparr>))"

section \<open>FinalHarmonizer\<close>

text \<open>
  The reasoning oracle (OllamaEngine) is reached over HTTP; what it answers is decided
  outside the program. It is a collaborator with a state of its own (type \<open>'o\<close>):
  \<open>health_check\<close> answers a boolean, \<open>asyncio.run(self.ollama.query(prompt))\<close> either
  raises or returns a dictionary with \<open>success\<close>, \<open>response\<close> and, when it succeeded,
  \<open>model\<close>. The prompt is an f-string over five values; the model passes the five values.
\<close>

record ollama_result =
  success :: bool
  response :: string
  model :: string

record ('a, 'p, 's) conflict_prompt =
  prompt_left_verdict :: 'a
  prompt_right_verdict :: 'a
  prompt_philosopher :: 'p
  prompt_logic_set :: "'s list"
  prompt_conflict :: nat

record ('o, 'q) ollama_engine =
  health_check :: "'o \<Rightarrow> bool \<times> 'o"
  query :: "'o \<Rightarrow> 'q \<Rightarrow> (error + ollama_result) \<times> 'o"

record ('a, 'd) fused =
  left :: 'a
  right :: 'a
  distilled :: 'd

text \<open>
  The state of a FinalHarmonizer run: the harmonizer state shared with the hemispheres,
  the oracle's state and the harmonizer's own Thinker.
\<close>

record ('p, 's, 'e, 'o) fstate =
  run :: "('p, 's, 'e) hstate"
  ollama_state :: 'o
  thinker :: thinker

definition primary_cycles :: nat where
  "primary_cycles = 5"

text \<open>
  Lines 77 to 103 of \<open>harmonize\<close>: the escalation inside a conflict cycle. The oracle is
  asked only when the local verdict is unresolved and the health check succeeds; a
  successful answer is the result to return, an unsuccessful answer or an exception
  (caught and printed) falls through with no result.
\<close>

definition escalate ::
  "('p, 's, 'd, 'v, 'e) vault \<Rightarrow> ('o, ('a, 'p, 's) conflict_prompt) ollama_engine
     \<Rightarrow> 'a \<Rightarrow> 'a \<Rightarrow> 'p \<times> 's list \<Rightarrow> nat \<Rightarrow> 'v \<Rightarrow> 'o \<Rightarrow> 'v result option \<times> 'o" where
  "escalate vault ollama left_verdict right_verdict combo conflict v os =
     (if \<not> is_resolved vault v
      then (case health_check ollama os of
              (healthy, os1) \<Rightarrow>
                if healthy
                then (case query ollama os1
                             \<lparr>prompt_left_verdict = left_verdict,
                              prompt_right_verdict = right_verdict,
                              prompt_philosopher = fst combo, prompt_logic_set = snd combo,
                              prompt_conflict = conflict\<rparr> of
                        (Inr ollama_result, os2) \<Rightarrow>
                          if success ollama_result
                          then (Some \<lparr>source = ''Final_Core_Ollama'',
                                      verdict = Str (response ollama_result),
                                      cycles = Some (primary_cycles + conflict),
                                      status = ''resolved_ollama'',
                                      ollama_model = Some (model ollama_result)\<rparr>, os2)
                          else (None, os2)
                      | (Inl e, os2) \<Rightarrow> (None, os2))
                else (None, os1))
      else (None, os))"

text \<open>
  The conflict loop of FinalHarmonizer over the remaining values of \<open>conflict\<close>. It
  yields the dictionary built by the return statement that ended it, or \<open>None\<close> when
  the range ran out.
\<close>

fun final_conflict_loop ::
  "('p, 's::linorder, ('a, 'd) fused, 'v, 'e) vault
     \<Rightarrow> ('o, ('a, 'p, 's) conflict_prompt) ollama_engine \<Rightarrow> rng \<Rightarrow> ('a, 'd) fused \<Rightarrow> nat list
     \<Rightarrow> ('p, 's, 'e) hstate \<Rightarrow> 'o
     \<Rightarrow> (error + ('v result option \<times> ('p, 's, 'e) hstate \<times> 'o)) option" where
  "final_conflict_loop vault ollama rng fsd [] st os = Some (Inr (None, st, os))"
| "final_conflict_loop vault ollama rng fsd (conflict # rest) st os =
     (case attempt vault rng fsd st of
        None \<Rightarrow> None
      | Some (Inl e) \<Rightarrow> Some (Inl e)
      | Some (Inr (combo, v, st')) \<Rightarrow>
          (case escalate vault ollama (left fsd) (right fsd) combo conflict v os of
             (Some r, os') \<Rightarrow> Some (Inr (Some r, st', os'))
           | (None, os') \<Rightarrow>
               if is_resolved vault v
               then Some (Inr (Some \<lparr>source = ''Final_Core'', verdict = Val v,
                                       cycles = Some (primary_cycles + conflict),
                                       status = ''resolved'', ollama_model = None\<rparr>, st', os'))
               else final_conflict_loop vault ollama rng fsd rest st' os'))"

text \<open>
  \<open>FinalHarmonizer.harmonize\<close>. Every return statement of the source is
  \<open>return self.thinker.reflect(result)\<close>; \<open>reflected\<close> is that last step.
\<close>

definition reflected ::
  "reflect_clock \<Rightarrow> 'v result \<Rightarrow> ('p, 's, 'e) hstate \<Rightarrow> 'o \<Rightarrow> thinker
     \<Rightarrow> 'v result reflection \<times> ('p, 's, 'e, 'o) fstate" where
  "reflected clk r st os th =
     (case Thinker_reflect th clk r of
        (refined, th') \<Rightarrow> (refined, \<lparr>run = st, ollama_state = os, thinker = th'\<rparr>))"

definition FinalHarmonizer_harmonize ::
  "('p, 's::linorder, ('a, 'd) fused, 'v, 'e) vault
     \<Rightarrow> ('o, ('a, 'p, 's) conflict_prompt) ollama_engine \<Rightarrow> rng \<Rightarrow> reflect_clock
     \<Rightarrow> 'a \<Rightarrow> 'a \<Rightarrow> 'd \<Rightarrow> ('p, 's, 'e, 'o) fstate
     \<Rightarrow> (error + ('v result reflection \<times> ('p, 's, 'e, 'o) fstate)) option" where
  "FinalHarmonizer_harmonize vault ollama rng clk left_verdict right_verdict distld fs =
     (let fsd = \<lparr>left = left_verdict, right = right_verdict, distilled = distld\<rparr>
      in case cycles_loop ''Final_Core'' vault rng fsd (\<lambda>cycle. cycle)
                [1 ..< primary_cycles + 1] (run fs) of
           None \<Rightarrow> None
         | Some (Inl e) \<Rightarrow> Some (Inl e)
         | Some (Inr (Some r, st')) \<Rightarrow>
             Some (Inr (reflected clk r st' (ollama_state fs) (thinker fs)))
         | Some (Inr (None, st')) \<Rightarrow>
             (case final_conflict_loop vault ollama rng fsd [1 ..< conflict_cycles + 1]
                     st' (ollama_state fs) of
                None \<Rightarrow> None
              | Some (Inl e) \<Rightarrow> Some (Inl e)
              | Some (Inr (Some r, st'', os')) \<Rightarrow>
                  Some (Inr (reflected clk r st'' os' (thinker fs)))
              | Some (Inr (None, st'', os')) \<Rightarrow>
                  Some (Inr (reflected clk
                               \<lparr>source = ''Final_Core'',
                                verdict = Str ''UNRESOLVED_RETURN_TO_RESONATOR'',
                                cycles = None, status = ''unresolved'',
                                ollama_model = None\<rparr> st'' os' (thinker fs)))))"

section \<open>TaskOrchestrator\<close>

text \<open>
  A task item is a dictionary; its values are payload values or pulse stamps.
\<close>

datatype 'a item_value = Payload 'a | Stamp pulse_id

type_synonym 'a item = "string \<rightharpoonup> 'a item_value"

text \<open>
  \<open>__init__\<close> binds two names in the instance: \<open>self.iss = ISSBrainstem()\<close> and
  \<open>self.queue = deque()\<close>. The record holds the two values.
\<close>

record 'a orchestrator =
  orch_iss :: iss
  orch_queue :: "'a item list"

definition TaskOrchestrator_init :: "real \<Rightarrow> 'a orchestrator" where
  "TaskOrchestrator_init now = \<lparr>orch_iss = ISSBrainstem_init now, orch_queue = []\<rparr>"

text \<open>
  The three functions of the class body. \<open>queue\<close> stamps the item with \<open>queued_at\<close>,
  appends it and returns the pulse; \<open>next\<close> returns \<open>{}\<close> on an empty deque and
  otherwise pops the leftmost item and stamps it with \<open>executed_at\<close>; \<open>mark_done\<close>
  stamps \<open>completed_at\<close>. Inside the bodies \<open>self.queue\<close> is the deque.
\<close>

definition TaskOrchestrator_queue ::
  "'a orchestrator \<Rightarrow> 'a item \<Rightarrow> real \<Rightarrow> pulse_id \<times> 'a orchestrator" where
  "TaskOrchestrator_queue self itm now =
     (case pulse (orch_iss self) now of
        (p, iss') \<Rightarrow>
          (p, \<lparr>orch_iss = iss',
               orch_queue = orch_queue self @ [itm(''queued_at'' \<mapsto> Stamp p)]\<rparr>))"

definition TaskOrchestrator_next ::
  "'a orchestrator \<Rightarrow> real \<Rightarrow> 'a item \<times> 'a orchestrator" where
  "TaskOrchestrator_next self now =
     (case orch_queue self of
        [] \<Rightarrow> (Map.empty, self)
      | itm # rest \<Rightarrow>
          (case pulse (orch_iss self) now of
             (p, iss') \<Rightarrow>
               (itm(''executed_at'' \<mapsto> Stamp p), \<lparr>orch_iss = iss', orch_queue = rest\<rparr>)))"

definition TaskOrchestrator_mark_done ::
  "'a orchestrator \<Rightarrow> 'a item \<Rightarrow> real \<Rightarrow> pulse_id \<times> 'a item \<times> 'a orchestrator" where
  "TaskOrchestrator_mark_done self itm now =
     (case pulse (orch_iss self) now of
        (p, iss') \<Rightarrow> (p, itm(''completed_at'' \<mapsto> Stamp p), self\<lparr>orch_iss := iss'\<rparr>))"

text \<open>
  Attribute lookup \<open>obj.name\<close> on a TaskOrchestrator instance. Python looks in the
  instance dictionary first and in the class only when the name is not bound there
  (functions of a class are non-data descriptors). \<open>__init__\<close> has bound \<open>iss\<close> and
  \<open>queue\<close> in the instance; the class defines \<open>queue\<close>, \<open>next\<close> and \<open>mark_done\<close>.
\<close>

datatype attribute = Instance_value | Bound_method | Absent

definition instance_names :: "string list" where
  "instance_names = [''iss'', ''queue'']"

definition class_functions :: "string list" where
  "class_functions = [''queue'', ''next'', ''mark_done'']"

definition getattr :: "string \<Rightarrow> attribute" where
  "getattr name =
     (if name \<in> set instance_names then Instance_value
      else if name \<in> set class_functions then Bound_method
      else Absent)"

text \<open>
  The call expressions of the callers (\<open>task_orchestrator.queue(task_item)\<close>,
  \<open>task_orchestrator.next()\<close> in \<open>caleon_port.py\<close>): the attribute is looked up, then
  called. Calling a deque or an ISSBrainstem raises TypeError (not callable); a missing
  attribute raises AttributeError.
\<close>

definition call_queue ::
  "'a orchestrator \<Rightarrow> 'a item \<Rightarrow> real \<Rightarrow> error + pulse_id \<times> 'a orchestrator" where
  "call_queue self itm now =
     (case getattr ''queue'' of
        Instance_value \<Rightarrow> Inl TypeError
      | Bound_method \<Rightarrow> Inr (TaskOrchestrator_queue self itm now)
      | Absent \<Rightarrow> Inl AttributeError)"

definition call_next ::
  "'a orchestrator \<Rightarrow> real \<Rightarrow> error + 'a item \<times> 'a orchestrator" where
  "call_next self now =
     (case getattr ''next'' of
        Instance_value \<Rightarrow> Inl TypeError
      | Bound_method \<Rightarrow> Inr (TaskOrchestrator_next self now)
      | Absent \<Rightarrow> Inl AttributeError)"

definition call_mark_done ::
  "'a orchestrator \<Rightarrow> 'a item \<Rightarrow> real
     \<Rightarrow> error + pulse_id \<times> 'a item \<times> 'a orchestrator" where
  "call_mark_done self itm now =
     (case getattr ''mark_done'' of
        Instance_value \<Rightarrow> Inl TypeError
      | Bound_method \<Rightarrow> Inr (TaskOrchestrator_mark_done self itm now)
      | Absent \<Rightarrow> Inl AttributeError)"

section \<open>The synaptic resonator\<close>

text \<open>
  Python floats are modelled as real numbers: the arithmetic below is exact, rounding
  is not modelled. What is proved from these definitions is a fact about the program
  only where every floating-point operation involved is exact, as it is for the values
  0.5, 1, 1.5 and 390 of the zero-seed run below. A vault seed is the dictionary read
  from a seed file.
\<close>

type_synonym seed = "string \<rightharpoonup> real"

text \<open>A synapse: \<open>mode\<close>, \<open>bias\<close> and \<open>mod\<close> (here \<open>smod\<close>), with the defaults of \<open>dict.get\<close>.\<close>

record synapse =
  mode :: string
  bias :: real
  smod :: real

definition Synapse_init :: "string \<Rightarrow> seed \<Rightarrow> synapse" where
  "Synapse_init m vault_seed =
     \<lparr>mode = m,
      bias = (case vault_seed ''bias'' of None \<Rightarrow> 0 | Some b \<Rightarrow> b),
      smod = (case vault_seed ''mod'' of None \<Rightarrow> 2 / 100 | Some v \<Rightarrow> v)\<rparr>"

text \<open>\<open>Synapse.fire\<close>; \<open>u\<close> is the value of \<open>random()\<close> inside \<open>random.uniform\<close>.\<close>

definition fire :: "synapse \<Rightarrow> real \<Rightarrow> real \<Rightarrow> real" where
  "fire self incoming u =
     (if mode self = ''intuition''
      then incoming * (1 + bias self + random_uniform (- smod self) (smod self) u)
      else if mode self = ''induction''
      then incoming * (1 + random_uniform (- smod self * 2) (smod self * 2) u)
      else if mode self = ''deduction''
      then incoming * (1 + random_uniform (- smod self) (smod self / 2) u)
      else incoming)"

text \<open>\<open>PyramidNode.aggregate\<close>: 1.0 for an empty list, else the arithmetic mean.\<close>

definition aggregate :: "real list \<Rightarrow> real" where
  "aggregate vals = (if vals = [] then 1 else sum_list vals / real (length vals))"

text \<open>The slice \<open>values[i:j]\<close> for \<open>0 \<le> i \<le> j\<close>; a slice past the end is cut short.\<close>

definition slice :: "nat \<Rightarrow> nat \<Rightarrow> 'a list \<Rightarrow> 'a list" where
  "slice i j xs = take (j - i) (drop i xs)"

text \<open>\<open>_fan_pass\<close>: the dictionary \<open>out\<close> of the six node outputs.\<close>

definition fan_pass :: "real list \<Rightarrow> (nat \<rightharpoonup> real)" where
  "fan_pass vals =
     (let o6 = aggregate (slice 0 780 vals);
          o5 = aggregate (slice 780 1560 vals);
          o4 = aggregate (slice 1560 2340 vals);
          o3 = aggregate [o4, o5, o6];
          o2 = aggregate [o4, o5, o6];
          o1 = aggregate [o2, o3]
      in [6 \<mapsto> o6, 5 \<mapsto> o5, 4 \<mapsto> o4, 3 \<mapsto> o3, 2 \<mapsto> o2, 1 \<mapsto> o1])"

text \<open>
  The resonator instance. \<open>_load_seeds\<close> reads three seed files through
  \<open>VaultAPI.read_seed\<close> (the parameter \<open>read_seed\<close>); \<open>_build_synapses\<close> appends 780
  triples of synapses and shuffles the list.
\<close>

record resonator =
  hemisphere :: string
  intuitive_seed :: seed
  inductive_seed :: seed
  deductive_seed :: seed
  synapses :: "synapse list"
  ref_count :: nat

definition unshuffled_synapses :: "seed \<Rightarrow> seed \<Rightarrow> seed \<Rightarrow> synapse list" where
  "unshuffled_synapses si sn sd =
     concat (replicate 780 [Synapse_init ''intuition'' si, Synapse_init ''induction'' sn,
                            Synapse_init ''deduction'' sd])"

definition build_synapses :: "seed \<Rightarrow> seed \<Rightarrow> seed \<Rightarrow> rng \<Rightarrow> nat \<Rightarrow> synapse list" where
  "build_synapses si sn sd rng pos = random_shuffle rng pos (unshuffled_synapses si sn sd)"

definition SynapticResonator_init :: "string \<Rightarrow> (string \<Rightarrow> seed) \<Rightarrow> rng \<Rightarrow> nat \<Rightarrow> resonator" where
  "SynapticResonator_init hemi read_seed rng pos =
     (let si = read_seed ''seed_spinoza'';
          sn = read_seed ''seed_hume'';
          sd = read_seed ''seed_kant''
      in \<lparr>hemisphere = hemi, intuitive_seed = si, inductive_seed = sn, deductive_seed = sd,
          synapses = build_synapses si sn sd rng pos, ref_count = 0\<rparr>)"

text \<open>
  \<open>fired = [syn.fire(stimulus_value) for syn in self.synapses]\<close>: the i-th synapse
  fires with the i-th unit draw \<open>u i\<close> of the call.
\<close>

definition fire_all :: "synapse list \<Rightarrow> real \<Rightarrow> (nat \<Rightarrow> real) \<Rightarrow> real list" where
  "fire_all syns stimulus_value u =
     map (\<lambda>i. fire (syns ! i) stimulus_value (u i)) [0 ..< length syns]"

text \<open>
  What \<open>resonate\<close> reads and writes outside the instance: the module singleton \<open>ISS\<close>,
  the oracle's state and the reflection store (record id and record, in write order;
  the id \<open>{hemisphere}_syn_res_{ref_count:06d}\<close> is kept as its two components).
\<close>

record resonance_trace =
  trace_hemisphere :: string
  timestamp :: real
  trace_stardate :: "int \<times> int \<times> int"
  cycle_id :: pulse_id
  input_value :: real
  node_outputs :: "nat \<rightharpoonup> real"
  trace_verdict :: real
  ollama_enhancement :: "(string \<times> string) option"

record resonate_result =
  synaptic_verdict :: real
  pyramid_trace :: resonance_trace
  ollama_reasoning :: "(string \<times> string) option"

record 'o resonate_world =
  ISS :: iss
  resonate_ollama :: 'o
  reflections :: "((string \<times> nat) \<times> resonance_trace) list"

record resonate_clock = reflect_clock +
  unix_time :: real

text \<open>
  The best-effort annotation of \<open>resonate\<close>: asked only when the health check
  succeeds; an unsuccessful answer or an exception leaves \<open>None\<close>. The annotation keeps
  the response and the model (the performance counters are not modelled).
\<close>

definition enhance ::
  "('o, real \<times> real \<times> string) ollama_engine \<Rightarrow> real \<Rightarrow> real \<Rightarrow> string \<Rightarrow> 'o
     \<Rightarrow> (string \<times> string) option \<times> 'o" where
  "enhance ollama stimulus_value verdict_value context os =
     (case health_check ollama os of
        (healthy, os1) \<Rightarrow>
          if healthy
          then (case query ollama os1 (stimulus_value, verdict_value, context) of
                  (Inr ollama_result, os2) \<Rightarrow>
                    if success ollama_result
                    then (Some (response ollama_result, model ollama_result), os2)
                    else (None, os2)
                | (Inl e, os2) \<Rightarrow> (None, os2))
          else (None, os1))"

definition resonate ::
  "resonator \<Rightarrow> ('o, real \<times> real \<times> string) ollama_engine \<Rightarrow> (nat \<Rightarrow> real) \<Rightarrow> resonate_clock
     \<Rightarrow> real \<Rightarrow> string \<Rightarrow> 'o resonate_world
     \<Rightarrow> error + resonate_result \<times> resonator \<times> 'o resonate_world" where
  "resonate self ollama u clk stimulus_value context w =
     (let fired = fire_all (synapses self) stimulus_value u;
          pyramid_out = fan_pass fired
      in case pyramid_out 1 of
           None \<Rightarrow> Inl KeyError
         | Some verdict_value \<Rightarrow>
             (case enhance ollama stimulus_value verdict_value context (resonate_ollama w) of
                (reasoning, os') \<Rightarrow>
                  (case pulse (ISS w) (pulse_time clk) of
                     (p, iss') \<Rightarrow>
                       (let trace = \<lparr>trace_hemisphere = hemisphere self,
                                     timestamp = unix_time clk,
                                     trace_stardate = stardate (gmtime clk) (stardate_time clk),
                                     cycle_id = p, input_value = stimulus_value,
                                     node_outputs = pyramid_out,
                                     trace_verdict = verdict_value,
                                     ollama_enhancement = reasoning\<rparr>
                        in Inr (\<lparr>synaptic_verdict = verdict_value, pyramid_trace = trace,
                                  ollama_reasoning = reasoning\<rparr>,
                                self\<lparr>ref_count := ref_count self + 1\<rparr>,
                                \<lparr>ISS = iss', resonate_ollama = os',
                                 reflections = reflections w @
                                   [((hemisphere self, ref_count self), trace)]\<rparr>)))))"

section \<open>Concrete inputs\<close>

text \<open>A random source that always hands out 0.\<close>

definition zero_rng :: rng where
  "zero_rng i = 0"

text \<open>Five of the logic seeds of the mock vault in \<open>test_voice_pipeline.py\<close>.\<close>

definition five_seeds :: "string list" where
  "five_seeds = [''deductive'', ''inductive'', ''abductive'', ''analogical'', ''causal'']"

text \<open>A vault with one philosopher and five logic seeds whose evaluator never resolves.\<close>

definition tiny_vault :: "(string, string, unit, nat, unit) vault" where
  "tiny_vault = \<lparr>philosophers = [''plato''], logic_seeds = five_seeds,
                  evaluate = (\<lambda>e d p ls. (0, e)), is_resolved = (\<lambda>v. False)\<rparr>"

text \<open>The state of a harmonizer that has not run yet, for \<open>tiny_vault\<close>.\<close>

definition tiny_state :: "(string, string, unit) hstate" where
  "tiny_state = \<lparr>previous_sets = [], rng_pos = 0, vault_state = (), evaluated = []\<rparr>"

text \<open>A random source whose six raw values of the n-th draw are all n.\<close>

definition step_rng :: rng where
  "step_rng i = i div 6"

text \<open>The philosophers and logic seeds of the mock vault in \<open>test_voice_pipeline.py\<close>.\<close>

definition mock_philosophers :: "string list" where
  "mock_philosophers = [''aristotle'', ''plato'', ''kant'']"

definition mock_logic_seeds :: "string list" where
  "mock_logic_seeds = [''deductive'', ''inductive'', ''abductive'', ''analogical'', ''causal'',
                       ''probabilistic'', ''modal'', ''temporal'']"

text \<open>
  A stub vault whose evaluator counts its calls and answers the number of the call;
  the verdict \<open>k\<close> is the resolved one, so the stub resolves on attempt \<open>k\<close> and
  \<open>stub_vault 0\<close> never resolves.
\<close>

definition stub_vault :: "nat \<Rightarrow> (string, string, 'd, nat, nat) vault" where
  "stub_vault k = \<lparr>philosophers = mock_philosophers, logic_seeds = mock_logic_seeds,
                    evaluate = (\<lambda>e d p ls. (Suc e, Suc e)), is_resolved = (\<lambda>v. v = k)\<rparr>"

definition fresh_state :: "(string, string, nat) hstate" where
  "fresh_state = \<lparr>previous_sets = [], rng_pos = 0, vault_state = 0, evaluated = []\<rparr>"

text \<open>An oracle that is never reachable, and one that is unreachable at the first health
  check and reachable from the second on (its state counts the health checks) and then
  answers every query successfully.\<close>

definition dead_ollama :: "(nat, 'q) ollama_engine" where
  "dead_ollama = \<lparr>health_check = (\<lambda>os. (False, Suc os)),
                   query = (\<lambda>os q. (Inl RuntimeError, os))\<rparr>"

definition waking_ollama :: "(nat, 'q) ollama_engine" where
  "waking_ollama = \<lparr>health_check = (\<lambda>os. (0 < os, Suc os)),
                     query = (\<lambda>os q. (Inr \<lparr>success = True, response = ''bridged'',
                                            model = ''phi3:mini''\<rparr>, os))\<rparr>"

definition fixed_clock :: reflect_clock where
  "fixed_clock = \<lparr>pulse_time = 1700000000, stardate_time = 1700000000,
                   gmtime = (\<lambda>t. (2023, 318))\<rparr>"

definition fresh_final_state :: "(string, string, nat, nat) fstate" where
  "fresh_final_state = \<lparr>run = fresh_state, ollama_state = 0, thinker = Thinker_init 1700000000\<rparr>"

text \<open>The fused record of a run on the left verdict 1 and the right verdict 2, and the
  state in which the stub vault that never resolves is after its first \<open>n\<close> attempts
  under \<open>step_rng\<close>.\<close>

definition stub_fused :: "(nat, unit) fused" where
  "stub_fused = \<lparr>left = 1, right = 2, distilled = ()\<rparr>"

definition stub_state :: "nat \<Rightarrow> (string, string, nat) hstate" where
  "stub_state n =
     (case attempts (stub_vault 0) step_rng stub_fused n fresh_state of
        Some (Inr (vs, st)) \<Rightarrow> st
      | _ \<Rightarrow> fresh_state)"

text \<open>A task item as the gateway builds it.\<close>

definition sample_item :: "nat item" where
  "sample_item = [''data'' \<mapsto> Payload 7, ''priority'' \<mapsto> Payload 1]"

text \<open>Seed files that all configure bias 0 and mod 0, and draws that are all 0.5.\<close>

definition zero_seeds :: "string \<Rightarrow> seed" where
  "zero_seeds name = [''bias'' \<mapsto> 0, ''mod'' \<mapsto> 0]"

definition half_draws :: "nat \<Rightarrow> real" where
  "half_draws i = 1 / 2"

definition fixed_resonate_clock :: resonate_clock where
  "fixed_resonate_clock = \<lparr>pulse_time = 1700000000, stardate_time = 1700000000,
                            gmtime = (\<lambda>t. (2023, 318)), unix_time = 1700000000\<rparr>"

definition fresh_world :: "nat resonate_world" where
  "fresh_world = \<lparr>ISS = ISSBrainstem_init 1700000000, resonate_ollama = 0, reflections = []\<rparr>"

section \<open>Seed selection: what a draw can yield, and when the loop returns\<close>

lemma mset_remove_nth:
  "j < length pool \<Longrightarrow> mset (take j pool @ drop (Suc j) pool) = mset pool - {#pool ! j#}"
proof -
  assume j: "j < length pool"
  have "pool = take j pool @ pool ! j # drop (Suc j) pool"
    using j by (rule id_take_nth_drop)
  then have "mset pool = add_mset (pool ! j) (mset (take j pool @ drop (Suc j) pool))"
    by (metis mset.simps(2) mset_append union_mset_add_mset_right)
  then show ?thesis by simp
qed

lemma sample_positions_props:
  "length rs \<le> length pool \<Longrightarrow>
     length (sample_positions pool rs) = length rs \<and>
     mset (sample_positions pool rs) \<subseteq># mset pool"
proof (induction rs arbitrary: pool)
  case Nil
  then show ?case by simp
next
  case (Cons r rs)
  let ?j = "r mod length pool"
  let ?rest = "take ?j pool @ drop (Suc ?j) pool"
  from Cons.prems have ne: "0 < length pool" by auto
  then have j: "?j < length pool" by simp
  have len: "length ?rest = length pool - 1" using j by auto
  with Cons.prems have "length rs \<le> length ?rest" by simp
  from Cons.IH [OF this]
  have ih: "length (sample_positions ?rest rs) = length rs"
    "mset (sample_positions ?rest rs) \<subseteq># mset ?rest" by simp_all
  have "mset ?rest = mset pool - {#pool ! ?j#}" using j by (rule mset_remove_nth)
  moreover have "pool ! ?j \<in># mset pool" using j by simp
  ultimately have "add_mset (pool ! ?j) (mset (sample_positions ?rest rs)) \<subseteq># mset pool"
    using ih(2) by (metis insert_DiffM mset_subset_eq_add_mset_cancel)
  with ih(1) show ?case by (simp add: Let_def)
qed

lemma random_sample_props:
  "random_sample population k rs = Inr smp \<Longrightarrow> k \<le> length rs \<Longrightarrow>
     length smp = k \<and> mset smp \<subseteq># mset population"
  using sample_positions_props [of "take k rs" population]
  by (auto simp: random_sample_def split: if_splits)

lemma random_choice_props:
  "random_choice seq r = Inr x \<Longrightarrow> x \<in> set seq"
  by (auto simp: random_choice_def split: if_splits)

lemma pick_unique_seedset_post:
  assumes "pick_unique_seedset phils seeds rng pos prev = Some y"
  shows "\<forall>combo pos' prev'. y = Inr (combo, pos', prev') \<longrightarrow>
           combo \<notin> set prev \<and> prev' = prev @ [combo]"
proof (rule pick_unique_seedset.raw_induct
    [where P = "\<lambda>phils seeds rng pos prev y.
       \<forall>combo pos' prev'. y = Inr (combo, pos', prev') \<longrightarrow>
           combo \<notin> set prev \<and> prev' = prev @ [combo]", OF _ assms], goal_cases)
  case (1 pick phils seeds rng pos prev y)
  show ?case
  proof (cases "random_choice phils (rng pos)")
    case (Inl e)
    with 1(2) show ?thesis by auto
  next
    case p: (Inr p)
    show ?thesis
    proof (cases "random_sample seeds 5 (map rng [pos + 1 ..< pos + 6])")
      case (Inl e)
      with p 1(2) show ?thesis by auto
    next
      case smp: (Inr smp)
      show ?thesis
      proof (cases "(p, sort smp) \<in> set prev")
        case True
        with p smp 1(2) have "pick phils seeds rng (pos + 6) prev = Some y"
          by (simp add: Let_def)
        from 1(1) [OF this] show ?thesis .
      next
        case False
        with p smp 1(2) have "y = Inr ((p, sort smp), pos + 6, prev @ [(p, sort smp)])"
          by (simp add: Let_def)
        with False show ?thesis by simp
      qed
    qed
  qed
qed

lemma pick_unique_seedset_fresh:
  "pick_unique_seedset phils seeds rng pos prev = Some (Inr (combo, pos', prev')) \<Longrightarrow>
     combo \<notin> set prev \<and> prev' = prev @ [combo]"
  using pick_unique_seedset_post by blast

lemma pick_unique_seedset_no_return:
  assumes "pick_unique_seedset phils seeds rng pos prev = Some y"
  shows "(\<forall>p \<in> set phils. \<forall>ls. mset ls \<subseteq># mset seeds \<and> length ls = 5
            \<longrightarrow> (p, sort ls) \<in> set prev) \<longrightarrow> (\<forall>out. y \<noteq> Inr out)"
proof (rule pick_unique_seedset.raw_induct
    [where P = "\<lambda>phils seeds rng pos prev y.
       (\<forall>p \<in> set phils. \<forall>ls. mset ls \<subseteq># mset seeds \<and> length ls = 5
            \<longrightarrow> (p, sort ls) \<in> set prev) \<longrightarrow> (\<forall>out. y \<noteq> Inr out)", OF _ assms], goal_cases)
  case (1 pick phils seeds rng pos prev y)
  show ?case
  proof (intro impI)
    assume all: "\<forall>p \<in> set phils. \<forall>ls. mset ls \<subseteq># mset seeds \<and> length ls = 5
         \<longrightarrow> (p, sort ls) \<in> set prev"
    show "\<forall>out. y \<noteq> Inr out"
    proof (cases "random_choice phils (rng pos)")
      case (Inl e)
      with 1(2) show ?thesis by auto
    next
      case (Inr p)
      then have p: "p \<in> set phils" by (rule random_choice_props)
      show ?thesis
      proof (cases "random_sample seeds 5 (map rng [pos + 1 ..< pos + 6])")
        case (Inl e)
        with Inr 1(2) show ?thesis by auto
      next
        case smp: (Inr smp)
        from random_sample_props [OF smp]
        have "length smp = 5" "mset smp \<subseteq># mset seeds" by simp_all
        with p all have "(p, sort smp) \<in> set prev" by blast
        with Inr smp 1(2) have "pick phils seeds rng (pos + 6) prev = Some y"
          by (simp add: Let_def)
        from 1(1) [OF this] all show ?thesis by blast
      qed
    qed
  qed
qed

lemma pick_unique_seedset_raises:
  assumes "pick_unique_seedset phils seeds rng pos prev = Some y"
  shows "\<forall>e. y = Inl e \<longrightarrow>
           (phils = [] \<and> e = IndexError) \<or> (length seeds < 5 \<and> e = ValueError)"
proof (rule pick_unique_seedset.raw_induct
    [where P = "\<lambda>phils seeds rng pos prev y. \<forall>e. y = Inl e \<longrightarrow>
           (phils = [] \<and> e = IndexError) \<or> (length seeds < 5 \<and> e = ValueError)",
      OF _ assms], goal_cases)
  case (1 pick phils seeds rng pos prev y)
  show ?case
  proof (cases "random_choice phils (rng pos)")
    case (Inl e)
    with 1(2) show ?thesis by (auto simp: random_choice_def split: if_splits)
  next
    case p: (Inr p)
    show ?thesis
    proof (cases "random_sample seeds 5 (map rng [pos + 1 ..< pos + 6])")
      case (Inl e)
      with p 1(2) show ?thesis by (auto simp: random_sample_def split: if_splits)
    next
      case smp: (Inr smp)
      show ?thesis
      proof (cases "(p, sort smp) \<in> set prev")
        case True
        with p smp 1(2) have "pick phils seeds rng (pos + 6) prev = Some y"
          by (simp add: Let_def)
        from 1(1) [OF this] show ?thesis .
      next
        case False
        with p smp 1(2) show ?thesis by (auto simp add: Let_def)
      qed
    qed
  qed
qed

lemma pick_unique_seedset_exhausted_None:
  assumes "phils \<noteq> []" and "5 \<le> length seeds"
    and "\<forall>p \<in> set phils. \<forall>ls. mset ls \<subseteq># mset seeds \<and> length ls = 5
           \<longrightarrow> (p, sort ls) \<in> set prev"
  shows "pick_unique_seedset phils seeds rng pos prev = None"
proof (cases "pick_unique_seedset phils seeds rng pos prev")
  case None
  then show ?thesis .
next
  case (Some y)
  show ?thesis
  proof (cases y)
    case (Inl e)
    with pick_unique_seedset_raises [OF Some] assms show ?thesis by auto
  next
    case (Inr out)
    with pick_unique_seedset_no_return [OF Some] assms show ?thesis by blast
  qed
qed


lemma sort_full_sample:
  assumes "mset ls \<subseteq># mset seeds" and "length ls = length seeds"
  shows "sort ls = sort seeds"
proof -
  have "size (mset ls) = size (mset seeds)" using assms(2) by simp
  with assms(1) have "mset ls = mset seeds"
    by (metis mset_subset_size subset_mset.less_le nat_neq_iff)
  then show ?thesis by (metis properties_for_sort sorted_sort mset_sort)
qed



lemma sort_five_seeds:
  "sort five_seeds = [''abductive'', ''analogical'', ''causal'', ''deductive'', ''inductive'']"
  unfolding five_seeds_def by code_simp

lemma five_seeds_exhausted:
  "\<forall>p \<in> set [''plato'']. \<forall>ls. mset ls \<subseteq># mset five_seeds \<and> length ls = 5
      \<longrightarrow> (p, sort ls) \<in> set [(''plato'', sort five_seeds)]"
proof (intro ballI allI impI)
  fix p :: string and ls :: "string list"
  assume p: "p \<in> set [''plato'']" and ls: "mset ls \<subseteq># mset five_seeds \<and> length ls = 5"
  have "length ls = length five_seeds" using ls by (simp add: five_seeds_def)
  with ls have "sort ls = sort five_seeds" by (simp add: sort_full_sample)
  with p show "(p, sort ls) \<in> set [(''plato'', sort five_seeds)]" by simp
qed

text \<open>
  C1 (as amended). The selection loop has no retry cap and the program has no
  ExhaustedSeedSpace condition. Whenever the vault has a philosopher and at least five
  logic seeds, and every combo of its combo space (a philosopher with the sorted list of
  five seeds at pairwise different positions) is already in \<open>previous_sets\<close>, the call
  of \<open>_pick_unique_seedset\<close> never returns and never raises, for every behaviour of the
  random source: each pass of the \<open>while True\<close> loop rejects its draw.
\<close>

theorem pick_unique_seedset_exhausted:
  assumes "philosophers vault \<noteq> []" and "5 \<le> length (logic_seeds vault)"
    and "\<forall>p \<in> set (philosophers vault). \<forall>ls.
            mset ls \<subseteq># mset (logic_seeds vault) \<and> length ls = 5
              \<longrightarrow> (p, sort ls) \<in> set prev"
  shows "pick_unique_seedset (philosophers vault) (logic_seeds vault) rng pos prev = None"
  using assms by (rule pick_unique_seedset_exhausted_None)


theorem pick_unique_seedset_exhausted_witness:
  "philosophers tiny_vault \<noteq> [] \<and> 5 \<le> length (logic_seeds tiny_vault) \<and>
   pick_unique_seedset (philosophers tiny_vault) (logic_seeds tiny_vault) zero_rng 0
     [(''plato'', sort five_seeds)] = None"
proof -
  have a: "philosophers tiny_vault \<noteq> []" by (simp add: tiny_vault_def)
  have b: "5 \<le> length (logic_seeds tiny_vault)" by (simp add: tiny_vault_def five_seeds_def)
  have c: "\<forall>p \<in> set (philosophers tiny_vault). \<forall>ls.
            mset ls \<subseteq># mset (logic_seeds tiny_vault) \<and> length ls = 5
              \<longrightarrow> (p, sort ls) \<in> set [(''plato'', sort five_seeds)]"
    using five_seeds_exhausted by (simp add: tiny_vault_def)
  from pick_unique_seedset_exhausted [OF a b c] a b show ?thesis by blast
qed

text \<open>
  The claim as stated fails: with one philosopher, five logic seeds and the single combo
  of that space already drawn, the next selection is a call that does not terminate;
  nothing is raised.
\<close>

theorem pick_unique_seedset_counterexample:
  "pick_unique_seedset [''plato''] five_seeds zero_rng 0
     [(''plato'', [''abductive'', ''analogical'', ''causal'', ''deductive'', ''inductive''])] = None"
proof -
  have "pick_unique_seedset [''plato''] five_seeds zero_rng 0 [(''plato'', sort five_seeds)] = None"
  proof (rule pick_unique_seedset_exhausted_None)
    show "[''plato''] \<noteq> []" by simp
    show "5 \<le> length five_seeds" by (simp add: five_seeds_def)
    show "\<forall>p \<in> set [''plato'']. \<forall>ls. mset ls \<subseteq># mset five_seeds \<and> length ls = 5
      \<longrightarrow> (p, sort ls) \<in> set [(''plato'', sort five_seeds)]"
      by (rule five_seeds_exhausted)
  qed
  then show ?thesis by (simp only: sort_five_seeds)
qed

section \<open>The cycles of the hemisphere harmonizers\<close>

lemma attempt_post:
  assumes "attempt vault rng d st = Some (Inr (cmb, v, st'))"
  shows "\<exists>combo. combo \<notin> set (previous_sets st) \<and>
           previous_sets st' = previous_sets st @ [combo] \<and>
           evaluated st' = evaluated st @ [combo]"
proof -
  from assms obtain combo pos' prev' where
    pick: "pick_unique_seedset (philosophers vault) (logic_seeds vault) rng
             (rng_pos st) (previous_sets st) = Some (Inr (combo, pos', prev'))"
    and st': "previous_sets st' = prev'" "evaluated st' = evaluated st @ [combo]"
    by (auto simp: attempt_def split: option.splits sum.splits prod.splits)
  from pick_unique_seedset_fresh [OF pick] st' show ?thesis by (intro exI [of _ combo]) simp
qed









section \<open>What a hemisphere run returns\<close>

lemma attempts_append:
  "attempts vault rng d (m + n) st =
     (case attempts vault rng d m st of
        None \<Rightarrow> None
      | Some (Inl e) \<Rightarrow> Some (Inl e)
      | Some (Inr (vs, st')) \<Rightarrow>
          (case attempts vault rng d n st' of
             None \<Rightarrow> None
           | Some (Inl e) \<Rightarrow> Some (Inl e)
           | Some (Inr (ws, st'')) \<Rightarrow> Some (Inr (vs @ ws, st''))))"
  by (induction m arbitrary: st) (auto split: option.splits sum.splits)

lemma attempts_length:
  "attempts vault rng d n st = Some (Inr (vs, st')) \<Longrightarrow>
     length vs = n \<and> length (evaluated st') = length (evaluated st) + n"
proof (induction n arbitrary: st vs)
  case 0
  then show ?case by simp
next
  case (Suc n)
  from Suc.prems obtain cmb v st1 ws where
    a: "attempt vault rng d st = Some (Inr (cmb, v, st1))"
    and r: "attempts vault rng d n st1 = Some (Inr (ws, st'))" and vs: "vs = v # ws"
    by (auto split: option.splits sum.splits)
  from attempt_post [OF a] have "length (evaluated st1) = length (evaluated st) + 1" by auto
  with Suc.IH [OF r] vs show ?case by simp
qed

lemma cycles_loop_unresolved:
  "attempts vault rng d (length cs) st = Some (Inr (vs, st')) \<Longrightarrow>
   \<forall>v \<in> set vs. \<not> is_resolved vault v \<Longrightarrow>
   cycles_loop src vault rng d f cs st = Some (Inr (None, st'))"
proof (induction cs arbitrary: st vs)
  case Nil
  then show ?case by simp
next
  case (Cons c cs)
  from Cons.prems(1) obtain cmb v st1 ws where
    a: "attempt vault rng d st = Some (Inr (cmb, v, st1))"
    and r: "attempts vault rng d (length cs) st1 = Some (Inr (ws, st'))" and vs: "vs = v # ws"
    by (auto split: option.splits sum.splits)
  from vs Cons.prems(2) have nv: "\<not> is_resolved vault v" and nw: "\<forall>v \<in> set ws. \<not> is_resolved vault v"
    by simp_all
  from Cons.IH [OF r nw] a nv show ?case by simp
qed

lemma cycles_loop_resolved:
  "attempts vault rng d k st = Some (Inr (vs, st')) \<Longrightarrow> 0 < k \<Longrightarrow> k \<le> length cs \<Longrightarrow>
   \<forall>v \<in> set (butlast vs). \<not> is_resolved vault v \<Longrightarrow> is_resolved vault (last vs) \<Longrightarrow>
   cycles_loop src vault rng d f cs st =
     Some (Inr (Some \<lparr>source = src, verdict = Val (last vs), cycles = Some (f (cs ! (k - 1))),
                      status = ''resolved'', ollama_model = None\<rparr>, st'))"
proof (induction cs arbitrary: st vs k)
  case Nil
  then show ?case by simp
next
  case (Cons c cs)
  from Cons.prems(2) obtain k' where k: "k = Suc k'" by (cases k) auto
  with Cons.prems(1) obtain cmb v st1 ws where
    a: "attempt vault rng d st = Some (Inr (cmb, v, st1))"
    and r: "attempts vault rng d k' st1 = Some (Inr (ws, st'))" and vs: "vs = v # ws"
    by (auto split: option.splits sum.splits)
  show ?case
  proof (cases k')
    case 0
    with r have "ws = []" "st' = st1" by simp_all
    with vs a Cons.prems(5) k 0 show ?thesis by simp
  next
    case (Suc k'')
    from attempts_length [OF r] Suc have ne: "ws \<noteq> []" by auto
    with vs Cons.prems(4,5) have nv: "\<not> is_resolved vault v"
      and nw: "\<forall>v \<in> set (butlast ws). \<not> is_resolved vault v"
      and lw: "is_resolved vault (last ws)" by simp_all
    from Cons.prems(3) k have "k' \<le> length cs" by simp
    from Cons.IH [OF r _ this nw lw] Suc
    have "cycles_loop src vault rng d f cs st1 =
       Some (Inr (Some \<lparr>source = src, verdict = Val (last ws), cycles = Some (f (cs ! (k' - 1))),
                      status = ''resolved'', ollama_model = None\<rparr>, st'))" by simp
    with a nv vs ne k Suc show ?thesis by simp
  qed
qed

lemma hemisphere_harmonize_first_resolved:
  assumes "attempts vault rng d k st = Some (Inr (vs, st'))"
  shows "length (evaluated st') = length (evaluated st) + k \<and>
     (1 \<le> k \<and> k \<le> base_cycles + conflict_cycles \<and>
      (\<forall>v \<in> set (butlast vs). \<not> is_resolved vault v) \<and> is_resolved vault (last vs)
        \<longrightarrow> hemisphere_harmonize src vault rng d st =
              Some (Inr (\<lparr>source = src, verdict = Val (last vs),
                          cycles = Some k, status = ''resolved'', ollama_model = None\<rparr>, st'))) \<and>
     (k = base_cycles + conflict_cycles \<and> (\<forall>v \<in> set vs. \<not> is_resolved vault v)
        \<longrightarrow> hemisphere_harmonize src vault rng d st =
              Some (Inr (\<lparr>source = src, verdict = Str ''UNRESOLVED'',
                          cycles = Some (base_cycles + conflict_cycles),
                          status = ''unresolved'', ollama_model = None\<rparr>, st')))"
proof (intro conjI impI)
  show "length (evaluated st') = length (evaluated st) + k"
    using attempts_length [OF assms] by simp
next
  assume h: "1 \<le> k \<and> k \<le> base_cycles + conflict_cycles \<and>
      (\<forall>v \<in> set (butlast vs). \<not> is_resolved vault v) \<and> is_resolved vault (last vs)"
  show "hemisphere_harmonize src vault rng d st =
      Some (Inr (\<lparr>source = src, verdict = Val (last vs),
                  cycles = Some k, status = ''resolved'', ollama_model = None\<rparr>, st'))"
  proof (cases "k \<le> 5")
    case True
    with h have "[1 ..< base_cycles + 1] ! (k - 1) = k" "k \<le> length [1 ..< base_cycles + 1]"
      by (simp_all add: base_cycles_def nth_upt)
    with cycles_loop_resolved [OF assms, of "[1 ..< base_cycles + 1]"
        src "\<lambda>cycle. cycle"] h
    show ?thesis
      by (simp add: hemisphere_harmonize_def)
  next
    case False
    then obtain m where k: "k = 5 + m" and m: "0 < m" by (metis not_le less_imp_add_positive)
    from h k have m5: "m \<le> 5" by (simp add: base_cycles_def conflict_cycles_def)
    from assms k obtain vs1 st1 vs2 where
      a1: "attempts vault rng d 5 st = Some (Inr (vs1, st1))"
      and a2: "attempts vault rng d m st1 = Some (Inr (vs2, st'))" and vs: "vs = vs1 @ vs2"
      by (auto simp: attempts_append split: option.splits sum.splits)
    from attempts_length [OF a2] m have ne: "vs2 \<noteq> []" by auto
    with vs h have n1: "\<forall>v \<in> set vs1. \<not> is_resolved vault v"
      and n2: "\<forall>v \<in> set (butlast vs2). \<not> is_resolved vault v"
      and l2: "is_resolved vault (last vs2)"
      by (simp_all add: butlast_append)
    have l1: "cycles_loop src vault rng d (\<lambda>cycle. cycle)
                [1 ..< base_cycles + 1] st = Some (Inr (None, st1))"
      using cycles_loop_unresolved [of vault rng d "[1 ..< base_cycles + 1]" st vs1 st1] a1 n1
      by (simp add: base_cycles_def)
    have "[1 ..< conflict_cycles + 1] ! (m - 1) = m" "m \<le> length [1 ..< conflict_cycles + 1]"
      using m m5 by (simp_all add: conflict_cycles_def nth_upt)
    with cycles_loop_resolved [OF a2 m, of "[1 ..< conflict_cycles + 1]"
        src "\<lambda>conflict. base_cycles + conflict"] n2 l2
    have "cycles_loop src vault rng d (\<lambda>conflict. base_cycles + conflict)
            [1 ..< conflict_cycles + 1] st1 =
          Some (Inr (Some \<lparr>source = src, verdict = Val (last vs2),
                cycles = Some (base_cycles + m), status = ''resolved'', ollama_model = None\<rparr>, st'))"
      by simp
    with l1 vs ne k show ?thesis
      by (simp add: hemisphere_harmonize_def base_cycles_def)
  qed
next
  assume h: "k = base_cycles + conflict_cycles \<and> (\<forall>v \<in> set vs. \<not> is_resolved vault v)"
  then have k: "k = 5 + 5" by (simp add: base_cycles_def conflict_cycles_def)
  from assms k have "attempts vault rng d (5 + 5) st = Some (Inr (vs, st'))" by simp
  from this [unfolded attempts_append] obtain vs1 st1 vs2 where
    a1: "attempts vault rng d 5 st = Some (Inr (vs1, st1))"
    and a2: "attempts vault rng d 5 st1 = Some (Inr (vs2, st'))" and vs: "vs = vs1 @ vs2"
    by (auto split: option.splits sum.splits)
  from vs h have n1: "\<forall>v \<in> set vs1. \<not> is_resolved vault v"
    and n2: "\<forall>v \<in> set vs2. \<not> is_resolved vault v" by simp_all
  have l1: "cycles_loop src vault rng d (\<lambda>cycle. cycle)
              [1 ..< base_cycles + 1] st = Some (Inr (None, st1))"
    using cycles_loop_unresolved [of vault rng d "[1 ..< base_cycles + 1]" st vs1 st1] a1 n1
    by (simp add: base_cycles_def)
  have l2: "cycles_loop src vault rng d (\<lambda>conflict. base_cycles + conflict)
              [1 ..< conflict_cycles + 1] st1 = Some (Inr (None, st'))"
    using cycles_loop_unresolved [of vault rng d "[1 ..< conflict_cycles + 1]" st1 vs2 st'] a2 n2
    by (simp add: conflict_cycles_def)
  from l1 l2 show "hemisphere_harmonize src vault rng d st =
      Some (Inr (\<lparr>source = src, verdict = Str ''UNRESOLVED'',
                  cycles = Some (base_cycles + conflict_cycles),
                  status = ''unresolved'', ollama_model = None\<rparr>, st'))"
    by (simp add: hemisphere_harmonize_def)
qed

text \<open>
  C5 (as amended). For HarmonizerLeft and HarmonizerRight alike: if the first \<open>k\<close>
  attempts of a run are made (each combo selection returns) and the \<open>k\<close>-th is the
  first whose verdict is resolved (1 \<le> k \<le> base_cycles + conflict_cycles),
  \<open>harmonize\<close> returns on that attempt, after exactly \<open>k\<close> calls of the evaluator,
  with status resolved, that verdict and cycles = k. If the first
  base_cycles + conflict_cycles attempts are made and none resolves, it returns after
  exactly that many calls with status unresolved, verdict "UNRESOLVED" and
  cycles = base_cycles + conflict_cycles.
\<close>

theorem harmonize_first_resolved:
  assumes "attempts vault rng d k st = Some (Inr (vs, st'))"
  shows "length (evaluated st') = length (evaluated st) + k \<and>
     (1 \<le> k \<and> k \<le> base_cycles + conflict_cycles \<and>
      (\<forall>v \<in> set (butlast vs). \<not> is_resolved vault v) \<and> is_resolved vault (last vs)
        \<longrightarrow> HarmonizerLeft_harmonize vault rng d st =
              Some (Inr (\<lparr>source = ''Left_Hemisphere'', verdict = Val (last vs),
                          cycles = Some k, status = ''resolved'', ollama_model = None\<rparr>, st')) \<and>
            HarmonizerRight_harmonize vault rng d st =
              Some (Inr (\<lparr>source = ''Right_Hemisphere'', verdict = Val (last vs),
                          cycles = Some k, status = ''resolved'', ollama_model = None\<rparr>, st'))) \<and>
     (k = base_cycles + conflict_cycles \<and> (\<forall>v \<in> set vs. \<not> is_resolved vault v)
        \<longrightarrow> HarmonizerLeft_harmonize vault rng d st =
              Some (Inr (\<lparr>source = ''Left_Hemisphere'', verdict = Str ''UNRESOLVED'',
                          cycles = Some (base_cycles + conflict_cycles),
                          status = ''unresolved'', ollama_model = None\<rparr>, st')) \<and>
            HarmonizerRight_harmonize vault rng d st =
              Some (Inr (\<lparr>source = ''Right_Hemisphere'', verdict = Str ''UNRESOLVED'',
                          cycles = Some (base_cycles + conflict_cycles),
                          status = ''unresolved'', ollama_model = None\<rparr>, st')))"
  using hemisphere_harmonize_first_resolved [OF assms, of "''Left_Hemisphere''"]
    hemisphere_harmonize_first_resolved [OF assms, of "''Right_Hemisphere''"]
  unfolding HarmonizerLeft_harmonize_def HarmonizerRight_harmonize_def
  by blast

lemma stub_attempts_3:
  "(case attempts (stub_vault 3) step_rng () 3 fresh_state of
      Some (Inr (vs, st')) \<Rightarrow> vs = [1, 2, 3]
    | _ \<Rightarrow> False)"
  by code_simp

lemma stub_attempts_7:
  "(case attempts (stub_vault 7) step_rng () 7 fresh_state of
      Some (Inr (vs, st')) \<Rightarrow> vs = [1, 2, 3, 4, 5, 6, 7]
    | _ \<Rightarrow> False)"
  by code_simp

lemma stub_attempts_10:
  "(case attempts (stub_vault 0) step_rng () 10 fresh_state of
      Some (Inr (vs, st')) \<Rightarrow> vs = [1, 2, 3, 4, 5, 6, 7, 8, 9, 10]
    | _ \<Rightarrow> False)"
  by code_simp

theorem harmonize_first_resolved_witness:
  "map_option (map_sum id fst)
     (HarmonizerLeft_harmonize (stub_vault 3) step_rng () fresh_state) =
     Some (Inr \<lparr>source = ''Left_Hemisphere'', verdict = Val 3, cycles = Some 3,
                 status = ''resolved'', ollama_model = None\<rparr>) \<and>
   map_option (map_sum id fst)
     (HarmonizerRight_harmonize (stub_vault 7) step_rng () fresh_state) =
     Some (Inr \<lparr>source = ''Right_Hemisphere'', verdict = Val 7, cycles = Some 7,
                 status = ''resolved'', ollama_model = None\<rparr>) \<and>
   map_option (map_sum id fst)
     (HarmonizerLeft_harmonize (stub_vault 0) step_rng () fresh_state) =
     Some (Inr \<lparr>source = ''Left_Hemisphere'', verdict = Str ''UNRESOLVED'', cycles = Some 10,
                 status = ''unresolved'', ollama_model = None\<rparr>)"
proof (intro conjI)
  from stub_attempts_3 obtain st' where
    "attempts (stub_vault 3) step_rng () 3 fresh_state = Some (Inr ([1, 2, 3], st'))"
    by (auto split: option.splits sum.splits)
  from harmonize_first_resolved [OF this]
  show "map_option (map_sum id fst)
     (HarmonizerLeft_harmonize (stub_vault 3) step_rng () fresh_state) =
     Some (Inr \<lparr>source = ''Left_Hemisphere'', verdict = Val 3, cycles = Some 3,
                 status = ''resolved'', ollama_model = None\<rparr>)"
    by (simp add: stub_vault_def base_cycles_def conflict_cycles_def)
next
  from stub_attempts_7 obtain st' where
    "attempts (stub_vault 7) step_rng () 7 fresh_state = Some (Inr ([1, 2, 3, 4, 5, 6, 7], st'))"
    by (auto split: option.splits sum.splits)
  from harmonize_first_resolved [OF this]
  show "map_option (map_sum id fst)
     (HarmonizerRight_harmonize (stub_vault 7) step_rng () fresh_state) =
     Some (Inr \<lparr>source = ''Right_Hemisphere'', verdict = Val 7, cycles = Some 7,
                 status = ''resolved'', ollama_model = None\<rparr>)"
    by (simp add: stub_vault_def base_cycles_def conflict_cycles_def)
next
  from stub_attempts_10 obtain st' where
    "attempts (stub_vault 0) step_rng () 10 fresh_state =
       Some (Inr ([1, 2, 3, 4, 5, 6, 7, 8, 9, 10], st'))"
    by (auto split: option.splits sum.splits)
  from harmonize_first_resolved [OF this]
  show "map_option (map_sum id fst)
     (HarmonizerLeft_harmonize (stub_vault 0) step_rng () fresh_state) =
     Some (Inr \<lparr>source = ''Left_Hemisphere'', verdict = Str ''UNRESOLVED'', cycles = Some 10,
                 status = ''unresolved'', ollama_model = None\<rparr>)"
    by (simp add: stub_vault_def base_cycles_def conflict_cycles_def)
qed

text \<open>
  The claim as stated fails where the combo space is smaller than the cycle count: on
  the vault with one philosopher and five logic seeds, whose evaluator never resolves,
  the first attempt is made and the second selection never returns, so \<open>harmonize\<close>
  does not return at all.
\<close>

lemma tiny_first_attempt:
  "attempt tiny_vault zero_rng () tiny_state =
     Some (Inr ((''plato'', sort five_seeds), 0,
                \<lparr>previous_sets = [(''plato'', sort five_seeds)], rng_pos = 6,
                  vault_state = (), evaluated = [(''plato'', sort five_seeds)]\<rparr>))"
  by code_simp

lemma tiny_second_attempt:
  "attempt tiny_vault rng d
     \<lparr>previous_sets = [(''plato'', sort five_seeds)], rng_pos = n, vault_state = e,
       evaluated = ev\<rparr> = None"
proof -
  have "pick_unique_seedset [''plato''] five_seeds rng n [(''plato'', sort five_seeds)] = None"
  proof (rule pick_unique_seedset_exhausted_None)
    show "[''plato''] \<noteq> []" by simp
    show "5 \<le> length five_seeds" by (simp add: five_seeds_def)
    show "\<forall>p \<in> set [''plato'']. \<forall>ls. mset ls \<subseteq># mset five_seeds \<and> length ls = 5
      \<longrightarrow> (p, sort ls) \<in> set [(''plato'', sort five_seeds)]"
      by (rule five_seeds_exhausted)
  qed
  then show ?thesis by (simp add: attempt_def tiny_vault_def)
qed

lemma tiny_never_resolved: "is_resolved tiny_vault v = False"
  by (simp add: tiny_vault_def)

lemma base_cycle_range: "[1 ..< base_cycles + 1] = [1, 2, 3, 4, 5]"
  by code_simp

theorem harmonize_first_resolved_counterexample:
  "HarmonizerLeft_harmonize tiny_vault zero_rng () tiny_state = None"
  unfolding HarmonizerLeft_harmonize_def hemisphere_harmonize_def base_cycle_range
  by (simp add: tiny_first_attempt tiny_second_attempt tiny_never_resolved)

section \<open>What a FinalHarmonizer run returns\<close>

lemma escalate_unhealthy:
  assumes "\<forall>os. \<not> fst (health_check ollama os)"
  shows "fst (escalate vault ollama lv rv combo conflict v os) = None"
proof -
  obtain h os1 where hc: "health_check ollama os = (h, os1)" by (cases "health_check ollama os")
  with assms have "\<not> h" by (metis fst_conv)
  with hc show ?thesis by (simp add: escalate_def)
qed

lemma final_conflict_loop_unresolved:
  "attempts vault rng fsd (length cs) st = Some (Inr (vs, st')) \<Longrightarrow>
   \<forall>v \<in> set vs. \<not> is_resolved vault v \<Longrightarrow> \<forall>os. \<not> fst (health_check ollama os) \<Longrightarrow>
   \<exists>os'. final_conflict_loop vault ollama rng fsd cs st os = Some (Inr (None, st', os'))"
proof (induction cs arbitrary: st vs os)
  case Nil
  then show ?case by simp
next
  case (Cons c cs)
  from Cons.prems(1) obtain cmb v st1 ws where
    a: "attempt vault rng fsd st = Some (Inr (cmb, v, st1))"
    and r: "attempts vault rng fsd (length cs) st1 = Some (Inr (ws, st'))" and vs: "vs = v # ws"
    by (auto split: option.splits sum.splits)
  from vs Cons.prems(2) have nv: "\<not> is_resolved vault v"
    and nw: "\<forall>v \<in> set ws. \<not> is_resolved vault v" by simp_all
  obtain ro os1 where e: "escalate vault ollama (left fsd) (right fsd) cmb c v os = (ro, os1)"
    by (cases "escalate vault ollama (left fsd) (right fsd) cmb c v os")
  with escalate_unhealthy [OF Cons.prems(3), of vault "left fsd" "right fsd" cmb c v os]
  have ro: "ro = None" by simp
  from Cons.IH [OF r nw Cons.prems(3), of os1] obtain os' where
    "final_conflict_loop vault ollama rng fsd cs st1 os1 = Some (Inr (None, st', os'))" by blast
  with a nv e ro show ?case by simp
qed

lemma final_conflict_loop_append:
  "final_conflict_loop vault ollama rng fsd (cs1 @ cs2) st os =
     (case final_conflict_loop vault ollama rng fsd cs1 st os of
        None \<Rightarrow> None
      | Some (Inl e) \<Rightarrow> Some (Inl e)
      | Some (Inr (Some r, st', os')) \<Rightarrow> Some (Inr (Some r, st', os'))
      | Some (Inr (None, st', os')) \<Rightarrow> final_conflict_loop vault ollama rng fsd cs2 st' os')"
  by (induction cs1 arbitrary: st os) (auto split: option.splits sum.splits prod.splits)

lemma final_harmonize_exhausted:
  assumes "attempts vault rng \<lparr>left = lv, right = rv, distilled = d\<rparr>
             (primary_cycles + conflict_cycles) (run fs) = Some (Inr (vs, st'))"
    and "\<forall>v \<in> set vs. \<not> is_resolved vault v"
    and "\<forall>os. \<not> fst (health_check ollama os)"
  shows "\<exists>os'. FinalHarmonizer_harmonize vault ollama rng clk lv rv d fs =
           Some (Inr (reflected clk
                        \<lparr>source = ''Final_Core'',
                         verdict = Str ''UNRESOLVED_RETURN_TO_RESONATOR'',
                         cycles = None, status = ''unresolved'',
                         ollama_model = None\<rparr> st' os' (thinker fs)))"
proof -
  let ?fsd = "\<lparr>left = lv, right = rv, distilled = d\<rparr>"
  from assms(1) have "attempts vault rng ?fsd (5 + 5) (run fs) = Some (Inr (vs, st'))"
    by (simp add: primary_cycles_def conflict_cycles_def)
  from this [unfolded attempts_append] obtain vs1 st1 vs2 where
    a1: "attempts vault rng ?fsd 5 (run fs) = Some (Inr (vs1, st1))"
    and a2: "attempts vault rng ?fsd 5 st1 = Some (Inr (vs2, st'))" and vs: "vs = vs1 @ vs2"
    by (auto split: option.splits sum.splits)
  from vs assms(2) have n1: "\<forall>v \<in> set vs1. \<not> is_resolved vault v"
    and n2: "\<forall>v \<in> set vs2. \<not> is_resolved vault v" by simp_all
  have l1: "cycles_loop ''Final_Core'' vault rng ?fsd (\<lambda>cycle. cycle)
              [1 ..< primary_cycles + 1] (run fs) = Some (Inr (None, st1))"
    using cycles_loop_unresolved [of vault rng ?fsd "[1 ..< primary_cycles + 1]" "run fs" vs1 st1]
      a1 n1
    by (simp add: primary_cycles_def)
  obtain os' where l2: "final_conflict_loop vault ollama rng ?fsd [1 ..< conflict_cycles + 1]
              st1 (ollama_state fs) = Some (Inr (None, st', os'))"
    using final_conflict_loop_unresolved [of vault rng ?fsd "[1 ..< conflict_cycles + 1]"
        st1 vs2 st' ollama "ollama_state fs"] a2 n2 assms(3)
    by (auto simp: conflict_cycles_def)
  from l1 l2 show ?thesis
    by (auto simp add: FinalHarmonizer_harmonize_def)
qed

text \<open>
  C3 (as amended). With an evaluator whose verdicts are all unresolved and an oracle
  whose health check always fails, if the primary_cycles + conflict_cycles (10)
  attempts of the run are made, \<open>FinalHarmonizer.harmonize\<close> returns after exactly
  those 10 calls of the evaluator, and the result it hands to the Thinker has status
  unresolved and verdict "UNRESOLVED_RETURN_TO_RESONATOR".
\<close>

theorem final_harmonize_unresolved:
  assumes "attempts vault rng \<lparr>left = lv, right = rv, distilled = d\<rparr>
             (primary_cycles + conflict_cycles) (run fs) = Some (Inr (vs, st'))"
    and "\<forall>v \<in> set vs. \<not> is_resolved vault v"
    and "\<forall>os. \<not> fst (health_check ollama os)"
  shows "\<exists>refl fs'. FinalHarmonizer_harmonize vault ollama rng clk lv rv d fs =
                       Some (Inr (refl, fs')) \<and>
           run fs' = st' \<and>
           length (evaluated (run fs')) =
             length (evaluated (run fs)) + (primary_cycles + conflict_cycles) \<and>
           status (original refl) = ''unresolved'' \<and>
           verdict (original refl) = Str ''UNRESOLVED_RETURN_TO_RESONATOR''"
proof -
  from final_harmonize_exhausted [OF assms, of clk] obtain os' where
    h: "FinalHarmonizer_harmonize vault ollama rng clk lv rv d fs =
           Some (Inr (reflected clk
                        \<lparr>source = ''Final_Core'',
                         verdict = Str ''UNRESOLVED_RETURN_TO_RESONATOR'',
                         cycles = None, status = ''unresolved'',
                         ollama_model = None\<rparr> st' os' (thinker fs)))" by blast
  from attempts_length [OF assms(1)]
  have len: "length (evaluated st') =
               length (evaluated (run fs)) + (primary_cycles + conflict_cycles)" by simp
  from h len show ?thesis
    by (simp add: reflected_def Thinker_reflect_def split: prod.splits)
qed

lemma stub_final_attempts_10:
  "(case attempts (stub_vault 0) step_rng \<lparr>left = 1 :: nat, right = 2, distilled = ()\<rparr> 10
           fresh_state of
      Some (Inr (vs, st')) \<Rightarrow> vs = [1, 2, 3, 4, 5, 6, 7, 8, 9, 10]
    | _ \<Rightarrow> False)"
  by code_simp

lemma stub_final_exhausted:
  "\<exists>st' os'. FinalHarmonizer_harmonize (stub_vault 0) dead_ollama step_rng fixed_clock
       (1 :: nat) 2 () fresh_final_state =
     Some (Inr (reflected fixed_clock
                  \<lparr>source = ''Final_Core'',
                   verdict = Str ''UNRESOLVED_RETURN_TO_RESONATOR'',
                   cycles = None, status = ''unresolved'',
                   ollama_model = None\<rparr> st' os' (thinker fresh_final_state)))"
proof -
  from stub_final_attempts_10 obtain st' where
    a: "attempts (stub_vault 0) step_rng \<lparr>left = 1 :: nat, right = 2, distilled = ()\<rparr>
       (primary_cycles + conflict_cycles) (run fresh_final_state) =
         Some (Inr ([1, 2, 3, 4, 5, 6, 7, 8, 9, 10], st'))"
    by (auto simp: primary_cycles_def conflict_cycles_def fresh_final_state_def
        split: option.splits sum.splits)
  have b: "\<forall>v \<in> set [1, 2, 3, 4, 5, 6, 7, 8, 9, 10 :: nat].
             \<not> is_resolved (stub_vault 0 :: (string, string, (nat, unit) fused, nat, nat) vault) v"
    by (simp add: stub_vault_def)
  have c: "\<forall>os. \<not> fst (health_check (dead_ollama :: (nat, (nat, string, string) conflict_prompt) ollama_engine) os)"
    by (simp add: dead_ollama_def)
  from final_harmonize_exhausted [OF a b c, of fixed_clock]
  show ?thesis by blast
qed

theorem final_harmonize_unresolved_counterexample:
  "map_option (map_sum id (cycles \<circ> original \<circ> fst))
     (FinalHarmonizer_harmonize (stub_vault 0) dead_ollama step_rng fixed_clock
        (1 :: nat) 2 () fresh_final_state) = Some (Inr None)"
  using stub_final_exhausted
  by (auto simp: reflected_def Thinker_reflect_def split: prod.splits)

theorem final_harmonize_unresolved_witness:
  "\<exists>refl fs'. FinalHarmonizer_harmonize (stub_vault 0) dead_ollama step_rng fixed_clock
       (1 :: nat) 2 () fresh_final_state = Some (Inr (refl, fs')) \<and>
     length (evaluated (run fs')) = 10 \<and>
     status (original refl) = ''unresolved'' \<and>
     verdict (original refl) = Str ''UNRESOLVED_RETURN_TO_RESONATOR''"
proof -
  from stub_final_attempts_10 obtain st' where
    a: "attempts (stub_vault 0) step_rng \<lparr>left = 1 :: nat, right = 2, distilled = ()\<rparr>
       (primary_cycles + conflict_cycles) (run fresh_final_state) =
         Some (Inr ([1, 2, 3, 4, 5, 6, 7, 8, 9, 10], st'))"
    by (auto simp: primary_cycles_def conflict_cycles_def fresh_final_state_def
        split: option.splits sum.splits)
  have b: "\<forall>v \<in> set [1, 2, 3, 4, 5, 6, 7, 8, 9, 10 :: nat].
             \<not> is_resolved (stub_vault 0 :: (string, string, (nat, unit) fused, nat, nat) vault) v"
    by (simp add: stub_vault_def)
  have c: "\<forall>os. \<not> fst (health_check (dead_ollama :: (nat, (nat, string, string) conflict_prompt) ollama_engine) os)"
    by (simp add: dead_ollama_def)
  from final_harmonize_unresolved [OF a b c, of fixed_clock] obtain refl fs' where
    "FinalHarmonizer_harmonize (stub_vault 0) dead_ollama step_rng fixed_clock
       (1 :: nat) 2 () fresh_final_state = Some (Inr (refl, fs'))"
    "length (evaluated (run fs')) =
       length (evaluated (run fresh_final_state)) + (primary_cycles + conflict_cycles)"
    "status (original refl) = ''unresolved''"
    "verdict (original refl) = Str ''UNRESOLVED_RETURN_TO_RESONATOR''"
    by blast
  then show ?thesis
    by (intro exI [of _ refl] exI [of _ fs'])
       (simp add: primary_cycles_def conflict_cycles_def fresh_final_state_def fresh_state_def)
qed

lemma final_conflict_loop_after:
  "final_conflict_loop vault ollama rng fsd cs1 st os = Some (Inr (None, st', os')) \<Longrightarrow>
   final_conflict_loop vault ollama rng fsd (cs1 @ cs2) st os =
     final_conflict_loop vault ollama rng fsd cs2 st' os'"
  by (simp add: final_conflict_loop_append)

lemma conflict_range_split:
  assumes "1 \<le> c" and "c \<le> conflict_cycles"
  shows "[1 ..< conflict_cycles + 1] = [1 ..< c] @ c # [Suc c ..< conflict_cycles + 1]"
proof -
  from assms obtain k where k: "conflict_cycles + 1 = c + k"
    by (metis le_Suc_ex le_SucI Suc_eq_plus1)
  from assms(1) have "[1 ..< c + k] = [1 ..< c] @ [c ..< c + k]"
    by (rule upt_add_eq_append)
  with k have "[1 ..< conflict_cycles + 1] = [1 ..< c] @ [c ..< conflict_cycles + 1]"
    by simp
  moreover from assms have "[c ..< conflict_cycles + 1] = c # [Suc c ..< conflict_cycles + 1]"
    by (simp add: upt_conv_Cons)
  ultimately show ?thesis by simp
qed

text \<open>
  C4. When the primary cycles ended unresolved and the conflict cycles before cycle
  \<open>c\<close> ended without a return, and in conflict cycle \<open>c\<close> the local verdict is
  unresolved, the oracle's health check succeeds and its answer to the query is a
  success, \<open>FinalHarmonizer.harmonize\<close> returns in that cycle: the result handed to
  the Thinker has the oracle's response as verdict, cycles = primary_cycles + c, the
  oracle's model, and the status that the source spells \<open>resolved_ollama\<close> (the
  escalated resolution). No later cycle runs: the state is the one left by cycle c.
\<close>

theorem final_harmonize_escalated:
  assumes primary: "attempts vault rng \<lparr>left = lv, right = rv, distilled = d\<rparr>
             primary_cycles (run fs) = Some (Inr (vs, st5))"
      "\<forall>v \<in> set vs. \<not> is_resolved vault v"
    and earlier: "final_conflict_loop vault ollama rng \<lparr>left = lv, right = rv, distilled = d\<rparr>
             [1 ..< c] st5 (ollama_state fs) = Some (Inr (None, st, os))"
    and c: "1 \<le> c" "c \<le> conflict_cycles"
    and local: "attempt vault rng \<lparr>left = lv, right = rv, distilled = d\<rparr> st =
                  Some (Inr (combo, v, st1))" "\<not> is_resolved vault v"
    and healthy: "health_check ollama os = (True, os1)"
    and answer: "query ollama os1
                   \<lparr>prompt_left_verdict = lv, prompt_right_verdict = rv,
                    prompt_philosopher = fst combo, prompt_logic_set = snd combo,
                    prompt_conflict = c\<rparr> = (Inr res, os2)" "success res"
  shows "FinalHarmonizer_harmonize vault ollama rng clk lv rv d fs =
           Some (Inr (reflected clk
                        \<lparr>source = ''Final_Core_Ollama'', verdict = Str (response res),
                         cycles = Some (primary_cycles + c), status = ''resolved_ollama'',
                         ollama_model = Some (model res)\<rparr> st1 os2 (thinker fs)))"
proof -
  let ?fsd = "\<lparr>left = lv, right = rv, distilled = d\<rparr>"
  have l1: "cycles_loop ''Final_Core'' vault rng ?fsd (\<lambda>cycle. cycle)
              [1 ..< primary_cycles + 1] (run fs) = Some (Inr (None, st5))"
    using cycles_loop_unresolved [of vault rng ?fsd "[1 ..< primary_cycles + 1]" "run fs" vs st5]
      primary
    by (simp add: primary_cycles_def)
  have e: "escalate vault ollama lv rv combo c v os = (Some \<lparr>source = ''Final_Core_Ollama'', verdict = Str (response res),
             cycles = Some (primary_cycles + c), status = ''resolved_ollama'',
             ollama_model = Some (model res)\<rparr>, os2)"
    using local(2) healthy answer by (simp add: escalate_def)
  have step: "final_conflict_loop vault ollama rng ?fsd (c # [Suc c ..< conflict_cycles + 1]) st os =
          Some (Inr (Some \<lparr>source = ''Final_Core_Ollama'', verdict = Str (response res),
             cycles = Some (primary_cycles + c), status = ''resolved_ollama'',
             ollama_model = Some (model res)\<rparr>, st1, os2))"
    by (subst final_conflict_loop.simps) (simp add: local(1) e)
  have l2: "final_conflict_loop vault ollama rng ?fsd [1 ..< conflict_cycles + 1]
          st5 (ollama_state fs) = Some (Inr (Some \<lparr>source = ''Final_Core_Ollama'', verdict = Str (response res),
             cycles = Some (primary_cycles + c), status = ''resolved_ollama'',
             ollama_model = Some (model res)\<rparr>, st1, os2))"
    unfolding conflict_range_split [OF c] final_conflict_loop_after [OF earlier] by (rule step)
  from l1 l2 show ?thesis by (simp add: FinalHarmonizer_harmonize_def)
qed


lemma stub_primary_run:
  "attempts (stub_vault 0) step_rng stub_fused 5 fresh_state =
     Some (Inr ([1, 2, 3, 4, 5], stub_state 5))"
  by code_simp

lemma stub_conflict_1:
  "final_conflict_loop (stub_vault 0) waking_ollama step_rng stub_fused [1 ..< 2]
     (stub_state 5) 0 = Some (Inr (None, stub_state 6, 1))"
  by code_simp

lemma stub_conflict_2:
  "map_option (map_sum id (fst \<circ> snd))
     (attempt (stub_vault 0) step_rng stub_fused (stub_state 6)) = Some (Inr 7)"
  by code_simp

theorem final_harmonize_escalated_witness:
  "map_option (map_sum id (original \<circ> fst))
     (FinalHarmonizer_harmonize (stub_vault 0) waking_ollama step_rng fixed_clock
        (1 :: nat) 2 () fresh_final_state) =
   Some (Inr \<lparr>source = ''Final_Core_Ollama'', verdict = Str ''bridged'', cycles = Some 7,
               status = ''resolved_ollama'', ollama_model = Some ''phi3:mini''\<rparr>)"
proof -
  let ?fsd = "\<lparr>left = 1 :: nat, right = 2, distilled = ()\<rparr>"
  have fsd: "stub_fused = ?fsd" by (simp add: stub_fused_def)
  from stub_conflict_2 obtain combo st1 where
    a: "attempt (stub_vault 0) step_rng ?fsd (stub_state 6) = Some (Inr (combo, 7, st1))"
    unfolding fsd
    by (cases "attempt (stub_vault 0) step_rng ?fsd (stub_state 6)")
       (auto simp: map_sum_def split: sum.splits)
  have p1: "attempts (stub_vault 0) step_rng ?fsd primary_cycles (run fresh_final_state) =
              Some (Inr ([1, 2, 3, 4, 5], stub_state 5))"
    using stub_primary_run by (simp add: primary_cycles_def fresh_final_state_def fsd)
  have p2: "\<forall>v \<in> set [1, 2, 3, 4, 5 :: nat].
              \<not> is_resolved (stub_vault 0 :: (string, string, (nat, unit) fused, nat, nat) vault) v"
    by (simp add: stub_vault_def)
  have e1: "final_conflict_loop (stub_vault 0) waking_ollama step_rng ?fsd [1 ..< 2]
              (stub_state 5) (ollama_state fresh_final_state) = Some (Inr (None, stub_state 6, 1))"
    using stub_conflict_1 unfolding fsd by (simp add: fresh_final_state_def)
  have c: "(1 :: nat) \<le> 2" "2 \<le> conflict_cycles" by (simp_all add: conflict_cycles_def)
  have l2: "\<not> is_resolved (stub_vault 0 :: (string, string, (nat, unit) fused, nat, nat) vault) 7"
    by (simp add: stub_vault_def)
  have h: "health_check (waking_ollama :: (nat, (nat, string, string) conflict_prompt) ollama_engine) 1
             = (True, 2)"
    by (simp add: waking_ollama_def)
  have q: "query waking_ollama 2
             \<lparr>prompt_left_verdict = 1 :: nat, prompt_right_verdict = 2,
              prompt_philosopher = fst combo, prompt_logic_set = snd combo,
              prompt_conflict = 2\<rparr> =
           (Inr \<lparr>success = True, response = ''bridged'', model = ''phi3:mini''\<rparr>, 2)"
    by (simp add: waking_ollama_def)
  have s: "success \<lparr>success = True, response = ''bridged'', model = ''phi3:mini''\<rparr>" by simp
  from final_harmonize_escalated [OF p1 p2 e1 c a l2 h q s, of fixed_clock]
  show ?thesis
    by (simp add: reflected_def Thinker_reflect_def primary_cycles_def split: prod.splits)
qed

section \<open>Pulses\<close>

lemma pulses_cycles:
  "map pulse_cycle (fst (pulses self nows)) = [cycle self + 1 ..< cycle self + 1 + length nows] \<and>
   cycle (snd (pulses self nows)) = cycle self + length nows"
proof (induction nows arbitrary: self)
  case Nil
  then show ?case by simp
next
  case (Cons now nows)
  let ?c = "cycle self"
  let ?self' = "self\<lparr>cycle := ?c + 1\<rparr>"
  have p: "pulse self now = (\<lparr>pulse_unix = now, pulse_cycle = ?c + 1\<rparr>, ?self')"
    by (simp add: pulse_def Let_def)
  obtain ps self'' where r: "pulses ?self' nows = (ps, self'')" by (cases "pulses ?self' nows")
  from Cons.IH [of ?self'] r
  have ih: "map pulse_cycle ps = [Suc (?c + 1) ..< ?c + 1 + Suc (length nows)]"
    "cycle self'' = ?c + Suc (length nows)"
    by simp_all
  have "[?c + 1 ..< ?c + 1 + Suc (length nows)] =
          (?c + 1) # [Suc (?c + 1) ..< ?c + 1 + Suc (length nows)]"
    by (rule upt_conv_Cons) simp
  with ih have "map pulse_cycle (\<lparr>pulse_unix = now, pulse_cycle = ?c + 1\<rparr> # ps) =
          [?c + 1 ..< ?c + 1 + Suc (length nows)]" by simp
  with ih(2) p r show ?case by simp
qed

text \<open>
  C9 (as amended). For one ISSBrainstem instance, N successive calls of \<open>pulse\<close> yield
  the cycle components c+1, ..., c+N where c is the instance's counter before the first
  call: they are strictly increasing, pairwise different, greater than the component of
  every pulse the instance issued before, and the counter ends at c+N.
\<close>

theorem pulses_strictly_increasing:
  "map pulse_cycle (fst (pulses self nows)) = [cycle self + 1 ..< cycle self + 1 + length nows] \<and>
   sorted_wrt (<) (map pulse_cycle (fst (pulses self nows))) \<and>
   distinct (map pulse_cycle (fst (pulses self nows))) \<and>
   cycle (snd (pulses self nows)) = cycle self + length nows"
proof -
  have "sorted_wrt (<) [cycle self + 1 ..< cycle self + 1 + length nows]"
    by (rule sorted_wrt_upt)
  moreover have "distinct [cycle self + 1 ..< cycle self + 1 + length nows]" by simp
  ultimately show ?thesis using pulses_cycles [of self nows] by simp
qed

text \<open>
  The claim as stated fails across components: the Thinker of a FinalHarmonizer and a
  TaskOrchestrator each construct an ISSBrainstem of their own, so the first pulse of
  the one and the first pulse of the other both carry the cycle component 1.
\<close>

theorem pulse_across_components_counterexample:
  "\<not> pulse_cycle (pulse_stamp (fst (Thinker_reflect (Thinker_init 1700000000) fixed_clock
                                        ''verdict''))) <
     pulse_cycle (fst (TaskOrchestrator_mark_done (TaskOrchestrator_init 1700000000)
                         sample_item 1700000001))"
  by (simp add: Thinker_reflect_def Thinker_init_def TaskOrchestrator_mark_done_def
      TaskOrchestrator_init_def ISSBrainstem_init_def pulse_def Let_def)

section \<open>The task queue\<close>

lemma next_on_empty:
  "call_next (TaskOrchestrator_init t0) now = Inr (Map.empty, TaskOrchestrator_init t0)"
  by (simp add: call_next_def getattr_def instance_names_def class_functions_def
      TaskOrchestrator_next_def TaskOrchestrator_init_def)

lemma queue_body_then_next:
  assumes "TaskOrchestrator_queue (TaskOrchestrator_init t0) itm t1 = (qp, self1)"
    and "TaskOrchestrator_next self1 t2 = (out, self2)"
  shows "out = itm(''queued_at'' \<mapsto> Stamp qp, ''executed_at'' \<mapsto> Stamp (fst (pulse (orch_iss self1) t2))) \<and>
         pulse_cycle qp < pulse_cycle (fst (pulse (orch_iss self1) t2)) \<and>
         orch_queue self2 = []"
  using assms
  by (auto simp: TaskOrchestrator_queue_def TaskOrchestrator_next_def TaskOrchestrator_init_def
      ISSBrainstem_init_def pulse_def Let_def split: prod.splits)

text \<open>
  C10. On a freshly constructed TaskOrchestrator the call \<open>queue(item)\<close> raises
  TypeError for every item: \<open>__init__\<close> has bound the name \<open>queue\<close> to the deque in
  the instance, which hides the method of the same name, and a deque is not callable.
  Nothing is stamped or appended, and the queue stays empty.
\<close>

theorem call_queue_raises:
  "call_queue (TaskOrchestrator_init t0) itm now = Inl TypeError"
  by (simp add: call_queue_def getattr_def instance_names_def)

section \<open>The synaptic resonator\<close>

lemma shuffle_pass_mset:
  "\<forall>i \<in> set is. i < length x \<Longrightarrow> mset (shuffle_pass is rng pos x) = mset x"
proof (induction "is" arbitrary: pos x)
  case Nil
  then show ?case by simp
next
  case (Cons i "is")
  let ?j = "rng pos mod (i + 1)"
  let ?x' = "x[i := x ! ?j, ?j := x ! i]"
  from Cons.prems have i: "i < length x" by simp
  have "?j < i + 1" by simp
  with i have j: "?j < length x" by linarith
  have m: "mset ?x' = mset x" using j i by (rule mset_swap)
  have "\<forall>k \<in> set is. k < length ?x'" using Cons.prems by simp
  from Cons.IH [OF this] m show ?case by (simp add: Let_def)
qed

lemma random_shuffle_mset: "mset (random_shuffle rng pos x) = mset x"
  unfolding random_shuffle_def by (rule shuffle_pass_mset) simp

lemma length_unshuffled: "length (unshuffled_synapses si sn sd) = 2340"
  by (simp add: unshuffled_synapses_def length_concat sum_list_replicate)

lemma set_unshuffled:
  "set (unshuffled_synapses si sn sd) =
     {Synapse_init ''intuition'' si, Synapse_init ''induction'' sn, Synapse_init ''deduction'' sd}"
  by (simp add: unshuffled_synapses_def)

lemma synapses_init:
  "mset (synapses (SynapticResonator_init hemi read_seed rng pos)) =
     mset (unshuffled_synapses (read_seed ''seed_spinoza'') (read_seed ''seed_hume'')
             (read_seed ''seed_kant''))"
  by (simp add: SynapticResonator_init_def Let_def build_synapses_def random_shuffle_mset)

lemma length_synapses_init:
  "length (synapses (SynapticResonator_init hemi read_seed rng pos)) = 2340"
  using synapses_init [of hemi read_seed rng pos] length_unshuffled
  by (metis size_mset)

lemma set_synapses_init:
  "set (synapses (SynapticResonator_init hemi read_seed rng pos)) =
     {Synapse_init ''intuition'' (read_seed ''seed_spinoza''),
      Synapse_init ''induction'' (read_seed ''seed_hume''),
      Synapse_init ''deduction'' (read_seed ''seed_kant'')}"
  using synapses_init [of hemi read_seed rng pos] set_unshuffled
  by (metis set_mset_mset)

lemma sum_list_upper: "\<forall>x \<in> set vals. x \<le> hi \<Longrightarrow> sum_list vals \<le> real (length vals) * hi"
  by (induction vals) (auto simp: algebra_simps)

lemma sum_list_lower: "\<forall>x \<in> set vals. lo \<le> x \<Longrightarrow> real (length vals) * lo \<le> sum_list vals"
  by (induction vals) (auto simp: algebra_simps)

lemma aggregate_bounds:
  assumes "vals \<noteq> []" and "\<forall>x \<in> set vals. lo \<le> x \<and> x \<le> hi"
  shows "lo \<le> aggregate vals \<and> aggregate vals \<le> hi"
proof -
  from assms(1) have n: "0 < real (length vals)" by simp
  from assms(2) have "real (length vals) * lo \<le> sum_list vals"
    and "sum_list vals \<le> real (length vals) * hi"
    by (simp_all add: sum_list_lower sum_list_upper)
  with n show ?thesis
    by (simp add: aggregate_def assms(1) pos_le_divide_eq pos_divide_le_eq mult.commute)
qed

lemma fan_pass_final:
  "fan_pass vals 1 =
     Some (aggregate
       [aggregate [aggregate (slice 1560 2340 vals), aggregate (slice 780 1560 vals),
                   aggregate (slice 0 780 vals)],
        aggregate [aggregate (slice 1560 2340 vals), aggregate (slice 780 1560 vals),
                   aggregate (slice 0 780 vals)]])"
  by (simp add: fan_pass_def Let_def)

lemma slices_cover:
  assumes "length vals = 2340"
  shows "vals = slice 0 780 vals @ slice 780 1560 vals @ slice 1560 2340 vals"
    and "length (slice 0 780 vals) = 780" and "length (slice 780 1560 vals) = 780"
    and "length (slice 1560 2340 vals) = 780"
proof -
  have a: "vals = take 780 vals @ drop 780 vals" by simp
  have b: "drop 780 vals = take 780 (drop 780 vals) @ drop 1560 vals"
    by (metis append_take_drop_id drop_drop numeral_Bit0 add.commute
        semiring_norm(6) numeral_plus_numeral)
  show "vals = slice 0 780 vals @ slice 780 1560 vals @ slice 1560 2340 vals"
    using a b assms by (simp add: slice_def)
  show "length (slice 0 780 vals) = 780" "length (slice 780 1560 vals) = 780"
    "length (slice 1560 2340 vals) = 780"
    using assms by (simp_all add: slice_def)
qed

lemma fan_pass_bounds:
  assumes "length vals = 2340" and "\<forall>x \<in> set vals. lo \<le> x \<and> x \<le> hi"
  shows "\<exists>v. fan_pass vals 1 = Some v \<and> lo \<le> v \<and> v \<le> hi"
proof -
  let ?s6 = "slice 0 780 vals" and ?s5 = "slice 780 1560 vals" and ?s4 = "slice 1560 2340 vals"
  from slices_cover [OF assms(1)] have cover: "vals = ?s6 @ ?s5 @ ?s4"
    and ne: "?s6 \<noteq> []" "?s5 \<noteq> []" "?s4 \<noteq> []" by auto
  from cover have "set ?s6 \<subseteq> set vals" "set ?s5 \<subseteq> set vals" "set ?s4 \<subseteq> set vals"
    by (metis set_append Un_upper1, metis set_append Un_upper1 Un_upper2 subset_trans,
        metis set_append Un_upper2 subset_trans)
  with assms(2) have b: "\<forall>x \<in> set ?s6. lo \<le> x \<and> x \<le> hi" "\<forall>x \<in> set ?s5. lo \<le> x \<and> x \<le> hi"
    "\<forall>x \<in> set ?s4. lo \<le> x \<and> x \<le> hi" by blast+
  from aggregate_bounds [OF ne(1) b(1)] aggregate_bounds [OF ne(2) b(2)]
    aggregate_bounds [OF ne(3) b(3)]
  have top: "\<forall>x \<in> set [aggregate ?s4, aggregate ?s5, aggregate ?s6]. lo \<le> x \<and> x \<le> hi" by simp
  have mid: "lo \<le> aggregate [aggregate ?s4, aggregate ?s5, aggregate ?s6] \<and>
             aggregate [aggregate ?s4, aggregate ?s5, aggregate ?s6] \<le> hi"
    by (rule aggregate_bounds [OF _ top]) simp
  let ?m = "aggregate [aggregate ?s4, aggregate ?s5, aggregate ?s6]"
  from mid have "\<forall>x \<in> set [?m, ?m]. lo \<le> x \<and> x \<le> hi" by simp
  then have "lo \<le> aggregate [?m, ?m] \<and> aggregate [?m, ?m] \<le> hi"
    by (rule aggregate_bounds [rotated]) simp
  then show ?thesis unfolding fan_pass_final by blast
qed

lemma resonate_returns:
  "\<exists>res self' w'. resonate self ollama u clk s ctx w = Inr (res, self', w') \<and>
      fan_pass (fire_all (synapses self) s u) 1 = Some (synaptic_verdict res)"
proof -
  obtain v where v: "fan_pass (fire_all (synapses self) s u) 1 = Some v"
    unfolding fan_pass_final by blast
  obtain reasoning os' where e: "enhance ollama s v ctx (resonate_ollama w) = (reasoning, os')"
    by (cases "enhance ollama s v ctx (resonate_ollama w)")
  obtain p iss' where p: "pulse (ISS w) (pulse_time clk) = (p, iss')"
    by (cases "pulse (ISS w) (pulse_time clk)")
  from v e p show ?thesis by (simp add: resonate_def Let_def)
qed

lemma length_fire_all: "length (fire_all syns s u) = length syns"
  by (simp add: fire_all_def)

text \<open>
  C8. When the three seed files configure bias 0 and mod 0, \<open>resonate\<close> applied to the
  stimulus 0.5 returns with a verdict equal to 0.5, whatever the draws, the shuffle, the
  oracle and the clock are. (Every value computed on the way is 0.5, 1.5, 390 or 1; the
  operations on them are exact in binary floating point as well.)
\<close>

theorem resonate_zero_seeds:
  assumes "\<forall>name \<in> {''seed_spinoza'', ''seed_hume'', ''seed_kant''}.
             read_seed name ''bias'' = Some 0 \<and> read_seed name ''mod'' = Some 0"
  shows "\<exists>res self' w'.
           resonate (SynapticResonator_init hemi read_seed rng pos) ollama u clk (1 / 2) ctx w =
             Inr (res, self', w') \<and>
           synaptic_verdict res = 1 / 2"
proof -
  let ?self = "SynapticResonator_init hemi read_seed rng pos"
  let ?fired = "fire_all (synapses ?self) (1 / 2) u"
  have len: "length ?fired = 2340" by (simp add: length_fire_all length_synapses_init)
  have z: "\<forall>syn \<in> set (synapses ?self). bias syn = 0 \<and> smod syn = 0"
    using assms by (simp add: set_synapses_init Synapse_init_def)
  have "\<forall>x \<in> set ?fired. 1 / 2 \<le> x \<and> x \<le> 1 / 2"
  proof
    fix x assume "x \<in> set ?fired"
    then obtain i where i: "i < 2340" and x: "x = fire (synapses ?self ! i) (1 / 2) (u i)"
      by (auto simp: fire_all_def length_synapses_init)
    from i have "synapses ?self ! i \<in> set (synapses ?self)"
      by (simp add: length_synapses_init)
    with z have "bias (synapses ?self ! i) = 0" "smod (synapses ?self ! i) = 0" by blast+
    with x have "x = 1 / 2" by (simp add: fire_def random_uniform_def)
    then show "1 / 2 \<le> x \<and> x \<le> 1 / 2" by simp
  qed
  from fan_pass_bounds [OF len this] obtain v where
    v: "fan_pass ?fired 1 = Some v" "v = 1 / 2" by force
  from resonate_returns [of ?self ollama u clk "1 / 2" ctx w] obtain res self' w' where
    r: "resonate ?self ollama u clk (1 / 2) ctx w = Inr (res, self', w')"
    and f: "fan_pass ?fired 1 = Some (synaptic_verdict res)" by blast
  from v f have "synaptic_verdict res = 1 / 2" by simp
  with r show ?thesis by blast
qed

theorem resonate_zero_seeds_witness:
  "\<exists>res self' w'.
     resonate (SynapticResonator_init ''left'' zero_seeds step_rng 0) dead_ollama half_draws
       fixed_resonate_clock (1 / 2) ''context'' fresh_world = Inr (res, self', w') \<and>
     synaptic_verdict res = 1 / 2"
proof -
  have "\<forall>name \<in> {''seed_spinoza'', ''seed_hume'', ''seed_kant''}.
          zero_seeds name ''bias'' = Some 0 \<and> zero_seeds name ''mod'' = Some 0"
    by (simp add: zero_seeds_def)
  from resonate_zero_seeds [OF this] show ?thesis .
qed

end
